theory Spec2Isabelle
  imports Main
begin

section \<open>The shared settings object\<close>

text \<open>
  The settings object is owned by \<^verbatim>\<open>settingsStore\<close>; both components only read its
  fields and write it back whole. A source is opaque to both components, so its type is
  a parameter. The field \<^verbatim>\<open>id\<close> of a subscription is written \<open>subId\<close>, since \<open>id\<close> is
  the identity function of HOL. \<^verbatim>\<open>autoRefresh\<close> may be absent (\<open>None\<close>), and so may
  \<^verbatim>\<open>lastUpdated\<close>; a timestamp is the number \<^verbatim>\<open>Date.now()\<close> returns.
\<close>

record Subscription =
  subId :: string
  url :: string
  name :: string
  autoRefresh :: "bool option"
  lastUpdated :: "int option"

record 'src Settings =
  passwordAccess :: bool
  accessPasswords :: "string list"
  subscriptions :: "Subscription list"
  sources :: "'src list"
  premiumSources :: "'src list"

section \<open>PasswordGate\<close>

subsection \<open>Session storage and component state\<close>

type_synonym Storage = "string \<rightharpoonup> string"

definition SESSION_UNLOCKED_KEY :: string where
  "SESSION_UNLOCKED_KEY = ''kvideo-unlocked''"

text \<open>\<^verbatim>\<open>sessionStorage.getItem(SESSION_UNLOCKED_KEY) === 'true'\<close>\<close>

definition isUnlocked :: "Storage \<Rightarrow> bool" where
  "isUnlocked storage = (storage SESSION_UNLOCKED_KEY = Some ''true'')"

text \<open>The six \<^verbatim>\<open>useState\<close> cells of the component.\<close>

record GateState =
  isLocked :: bool
  password :: string
  error :: bool
  isClient :: bool
  hasEnvPassword :: bool
  isValidating :: bool

definition initialState :: "bool \<Rightarrow> GateState" where
  "initialState initialHasEnvPassword =
     \<lparr>isLocked = True, password = [], error = False, isClient = False,
      hasEnvPassword = initialHasEnvPassword, isValidating = False\<rparr>"

subsection \<open>Initialization\<close>

text \<open>
  The body of \<^verbatim>\<open>GET /api/config\<close>. The field \<^verbatim>\<open>hasEnvPassword\<close> of the reply is
  written \<open>hasEnvPassword_data\<close>; \<open>subscriptionSources\<close> is \<open>None\<close> when the reply
  carries no (truthy) value.
\<close>

record 'e ConfigData =
  hasEnvPassword_data :: bool
  subscriptionSources :: "'e option"

text \<open>
  \<^verbatim>\<open>init\<close> up to its first \<^verbatim>\<open>await\<close>: settings and session flag are read, the
  provisional lock state is set and the UI is revealed. The effect's cleanup cannot run
  before this part returns, so \<^verbatim>\<open>mounted\<close> is true here.
\<close>

definition initLocal :: "'src Settings \<Rightarrow> bool \<Rightarrow> Storage \<Rightarrow> GateState \<Rightarrow> GateState" where
  "initLocal settings initialHasEnvPassword storage g =
     (let localLocked = (passwordAccess settings \<or> initialHasEnvPassword) \<and> \<not> isUnlocked storage
      in g\<lparr>isLocked := localLocked, isClient := True\<rparr>)"

text \<open>
  \<^verbatim>\<open>init\<close> after the \<^verbatim>\<open>await\<close>. The reply is \<open>None\<close> when the request throws, the
  status is not ok or the body does not parse: the \<^verbatim>\<open>catch\<close> branch, which only logs.
  \<open>settings\<close> and \<open>storage\<close> are the values read before the \<^verbatim>\<open>await\<close>, as in the
  source; \<open>mounted\<close> is the flag at the time the reply arrives. The second component
  lists the calls of \<^verbatim>\<open>settingsStore.syncEnvSubscriptions\<close>.
\<close>

definition initRemote ::
  "'src Settings \<Rightarrow> Storage \<Rightarrow> 'e ConfigData option \<Rightarrow> bool \<Rightarrow> GateState \<Rightarrow> GateState \<times> 'e list" where
  "initRemote settings storage reply mounted g =
     (case reply of
        None \<Rightarrow> (g, [])
      | Some data \<Rightarrow>
          if mounted then
            (let confirmLocked =
                   (passwordAccess settings \<or> hasEnvPassword_data data) \<and> \<not> isUnlocked storage
             in (g\<lparr>hasEnvPassword := hasEnvPassword_data data, isLocked := confirmLocked\<rparr>,
                 (case subscriptionSources data of None \<Rightarrow> [] | Some subs \<Rightarrow> [subs])))
          else (g, []))"

definition init ::
  "'src Settings \<Rightarrow> bool \<Rightarrow> Storage \<Rightarrow> 'e ConfigData option \<Rightarrow> bool \<Rightarrow> GateState \<Rightarrow> GateState \<times> 'e list" where
  "init settings initialHasEnvPassword storage reply mounted g =
     initRemote settings storage reply mounted (initLocal settings initialHasEnvPassword storage g)"

subsection \<open>Settings-change handler\<close>

text \<open>
  The callback subscribed to the store. \<^verbatim>\<open>hasEnvPassword\<close> is the component's state
  cell (the effect is re-created whenever it changes).
\<close>

definition handleSettingsUpdate :: "'src Settings \<Rightarrow> Storage \<Rightarrow> GateState \<Rightarrow> GateState" where
  "handleSettingsUpdate settings storage g =
     (if \<not> passwordAccess settings \<and> \<not> hasEnvPassword g then g\<lparr>isLocked := False\<rparr>
      else if passwordAccess settings \<and> \<not> isUnlocked storage then g\<lparr>isLocked := True\<rparr>
      else g)"

subsection \<open>Unlock attempt\<close>

text \<open>
  What \<^verbatim>\<open>POST /api/config\<close> does with a candidate: it replies with a body whose
  \<^verbatim>\<open>valid\<close> field is truthy or not, or the request (or the parsing of the reply) throws.
\<close>

datatype Validation = Replied bool | RequestFailed

text \<open>
  The world \<^verbatim>\<open>handleUnlock\<close> acts on: the component state, the session storage, and the
  candidates sent to the server so far, in order (one entry per network request).
\<close>

record World =
  gate :: GateState
  sessionStorage :: Storage
  posted :: "string list"

text \<open>The four statements both success branches share.\<close>

definition unlock :: "World \<Rightarrow> World" where
  "unlock w =
     w\<lparr>sessionStorage := (sessionStorage w)(SESSION_UNLOCKED_KEY \<mapsto> ''true''),
       gate := (gate w)\<lparr>isLocked := False, error := False, isValidating := False\<rparr>\<rparr>"

text \<open>
  \<^verbatim>\<open>handleUnlock\<close>. The candidate is the \<^verbatim>\<open>password\<close> state cell. The shake animation
  of the form is presentation only and is not modelled.
\<close>

definition handleUnlock :: "'src Settings \<Rightarrow> (string \<Rightarrow> Validation) \<Rightarrow> World \<Rightarrow> World" where
  "handleUnlock settings server w0 =
     (let w = w0\<lparr>gate := (gate w0)\<lparr>isValidating := True\<rparr>\<rparr>;
          candidate = password (gate w)
      in if candidate \<in> set (accessPasswords settings) then unlock w
         else if hasEnvPassword (gate w) then
           (let w' = w\<lparr>posted := posted w @ [candidate]\<rparr>
            in case server candidate of
                 Replied True \<Rightarrow> unlock w'
               | _ \<Rightarrow> w'\<lparr>gate := (gate w')\<lparr>error := True, isValidating := False\<rparr>\<rparr>)
         else w\<lparr>gate := (gate w)\<lparr>error := True, isValidating := False\<rparr>\<rparr>)"

section \<open>useSubscriptionSync\<close>

subsection \<open>The collaborators of a sync batch\<close>

text \<open>
  What \<^verbatim>\<open>fetchSourcesFromUrl\<close> resolves to. The field \<^verbatim>\<open>premiumSources\<close> of the result
  is written \<open>premiumSources_result\<close>, since the settings have a field of that name.
\<close>

record 'src FetchResult =
  normalSources :: "'src list"
  premiumSources_result :: "'src list"

text \<open>
  The helpers and the clock a batch depends on; none of them is defined in the hook.
  \<open>fetchSourcesFromUrl env i u\<close> is the outcome of the call made by iteration \<open>i\<close> of the
  loop for the address \<open>u\<close>: \<open>None\<close> when the call throws. \<open>mergeSources\<close> is the merge
  policy, taken as a total function. \<open>now env i\<close> is what \<^verbatim>\<open>Date.now()\<close> returns in
  iteration \<open>i\<close>; nothing is assumed about these readings.
\<close>

record 'src Env =
  fetchSourcesFromUrl :: "nat \<Rightarrow> string \<Rightarrow> 'src FetchResult option"
  mergeSources :: "'src list \<Rightarrow> 'src list \<Rightarrow> 'src list"
  now :: "nat \<Rightarrow> int"

text \<open>
  Modelled from the spec: \<^verbatim>\<open>settingsStore\<close> (\<^verbatim>\<open>@/lib/store/settings-store\<close>) is not among
  the sources. By its contract \<^verbatim>\<open>getSettings\<close> returns the current settings and
  \<^verbatim>\<open>saveSettings\<close> replaces them (and notifies the subscribers). The store is its
  content together with the list of \<^verbatim>\<open>saveSettings\<close> calls it has received.
\<close>

record 'src Store =
  content :: "'src Settings"
  saveCalls :: "'src Settings list"

definition getSettings :: "'src Store \<Rightarrow> 'src Settings" where
  "getSettings st = content st"

definition saveSettings :: "'src Settings \<Rightarrow> 'src Store \<Rightarrow> 'src Store" where
  "saveSettings s st = st\<lparr>content := s, saveCalls := saveCalls st @ [s]\<rparr>"

text \<open>
  Modelled from the spec: \<^verbatim>\<open>mergeSources\<close> (\<^verbatim>\<open>@/lib/utils/source-import-utils\<close>) is not
  among the sources. The spec gives its contract only: sources are merged by identity and
  merging a source that is already present does not duplicate it. \<open>mergeSources_dedup\<close>
  is the plainest such policy: the incoming sources that are new are appended. It is used
  for concrete batches only; the properties of the batch hold for every merge policy.
\<close>

definition mergeSources_dedup :: "'src list \<Rightarrow> 'src list \<Rightarrow> 'src list" where
  "mergeSources_dedup existing incoming =
     existing @ filter (\<lambda>x. x \<notin> set existing) (remdups incoming)"

subsection \<open>The batch\<close>

text \<open>
  \<^verbatim>\<open>Array.prototype.findIndex\<close>: the first index whose element satisfies the predicate;
  \<open>None\<close> stands for \<^verbatim>\<open>-1\<close>.
\<close>

fun findIndex :: "('a \<Rightarrow> bool) \<Rightarrow> 'a list \<Rightarrow> nat option" where
  "findIndex p [] = None"
| "findIndex p (x # xs) = (if p x then Some 0 else map_option Suc (findIndex p xs))"

text \<open>
  The variables \<^verbatim>\<open>sync\<close> declares before its loop, and the addresses fetched so far
  (one entry per call of \<^verbatim>\<open>fetchSourcesFromUrl\<close>).
\<close>

record 'src Locals =
  anyChanged :: bool
  currentSources :: "'src list"
  currentPremiumSources :: "'src list"
  updatedSubscriptions :: "Subscription list"
  fetched :: "string list"

text \<open>
  One iteration of the loop: the \<^verbatim>\<open>try\<close> block for \<open>sub\<close>. When the fetch throws, the
  \<^verbatim>\<open>catch\<close> only logs and the iteration ends with the variables as they were.
\<close>

definition syncOne :: "'src Env \<Rightarrow> nat \<Rightarrow> Subscription \<Rightarrow> 'src Locals \<Rightarrow> 'src Locals" where
  "syncOne env i sub st0 =
     (let st = st0\<lparr>fetched := fetched st0 @ [url sub]\<rparr>
      in case fetchSourcesFromUrl env i (url sub) of
           None \<Rightarrow> st
         | Some result \<Rightarrow>
             (let st1 = (if length (normalSources result) > 0
                         then st\<lparr>currentSources :=
                                   mergeSources env (currentSources st) (normalSources result),
                                 anyChanged := True\<rparr>
                         else st);
                  st2 = (if length (premiumSources_result result) > 0
                         then st1\<lparr>currentPremiumSources :=
                                    mergeSources env (currentPremiumSources st1)
                                      (premiumSources_result result),
                                  anyChanged := True\<rparr>
                         else st1)
              in case findIndex (\<lambda>s. subId s = subId sub) (updatedSubscriptions st2) of
                   None \<Rightarrow> st2
                 | Some subIdx \<Rightarrow>
                     st2\<lparr>updatedSubscriptions :=
                           (updatedSubscriptions st2)
                             [subIdx := (updatedSubscriptions st2 ! subIdx)
                                          \<lparr>lastUpdated := Some (now env i)\<rparr>]\<rparr>))"

text \<open>The \<^verbatim>\<open>for\<close> loop from index \<open>i\<close> over the active subscriptions still to visit.\<close>

fun syncLoop :: "'src Env \<Rightarrow> nat \<Rightarrow> Subscription list \<Rightarrow> 'src Locals \<Rightarrow> 'src Locals" where
  "syncLoop env i [] st = st"
| "syncLoop env i (sub # rest) st = syncLoop env (Suc i) rest (syncOne env i sub st)"

text \<open>\<^verbatim>\<open>subscriptions.filter((s) => s.autoRefresh !== false)\<close>\<close>

definition activeSubscriptions :: "Subscription list \<Rightarrow> Subscription list" where
  "activeSubscriptions subs = filter (\<lambda>s. autoRefresh s \<noteq> Some False) subs"

text \<open>The variables when the loop is left; \<open>subs\<close> is the hook's \<^verbatim>\<open>subscriptions\<close> state.\<close>

definition batch :: "'src Env \<Rightarrow> Subscription list \<Rightarrow> 'src Settings \<Rightarrow> 'src Locals" where
  "batch env subs settings =
     syncLoop env 0 (activeSubscriptions subs)
       \<lparr>anyChanged = False, currentSources = sources settings,
        currentPremiumSources = premiumSources settings,
        updatedSubscriptions = subs, fetched = []\<rparr>"

text \<open>
  \<^verbatim>\<open>sync\<close>: the store after the batch and the addresses it fetched, in order.
\<close>

definition sync :: "'src Env \<Rightarrow> Subscription list \<Rightarrow> 'src Store \<Rightarrow> 'src Store \<times> string list" where
  "sync env subs store =
     (if length (activeSubscriptions subs) = 0 then (store, [])
      else
        (let settings = getSettings store;
             st = batch env subs settings
         in if anyChanged st
            then (saveSettings
                    (settings\<lparr>sources := currentSources st,
                              premiumSources := currentPremiumSources st,
                              subscriptions := updatedSubscriptions st\<rparr>) store,
                  fetched st)
            else (store, fetched st)))"

text \<open>
  Iteration \<open>i\<close> delivers something for \<open>sub\<close> when its fetch returns and one of the two
  lists is not empty.
\<close>

definition delivers :: "'src Env \<Rightarrow> nat \<Rightarrow> Subscription \<Rightarrow> bool" where
  "delivers env i sub =
     (case fetchSourcesFromUrl env i (url sub) of
        None \<Rightarrow> False
      | Some result \<Rightarrow> normalSources result \<noteq> [] \<or> premiumSources_result result \<noteq> [])"

text \<open>
  The order on \<^verbatim>\<open>lastUpdated\<close> values: an absent timestamp is earlier than any
  timestamp.
\<close>

fun notEarlier :: "int option \<Rightarrow> int option \<Rightarrow> bool" where
  "notEarlier None new = True"
| "notEarlier (Some t) None = False"
| "notEarlier (Some t) (Some t') = (t \<le> t')"

subsection \<open>The debounce\<close>

text \<open>
  The browser's timers as far as the hook uses them: a clock in milliseconds and the
  timers set and not yet run or cleared, each with its identifier and the time from which
  its callback may run.
\<close>

record Timers =
  clock :: nat
  pending :: "(nat \<times> nat) list"
  nextId :: nat

definition setTimeout :: "nat \<Rightarrow> Timers \<Rightarrow> nat \<times> Timers" where
  "setTimeout delay t =
     (nextId t, t\<lparr>pending := pending t @ [(nextId t, clock t + delay)], nextId := Suc (nextId t)\<rparr>)"

definition clearTimeout :: "nat \<Rightarrow> Timers \<Rightarrow> Timers" where
  "clearTimeout timeoutId t = t\<lparr>pending := filter (\<lambda>(i, due). i \<noteq> timeoutId) (pending t)\<rparr>"

text \<open>
  The hook instance: the timers, the \<^verbatim>\<open>timeoutId\<close> held by the cleanup of the last run
  of the effect (\<open>None\<close> before the first run and after unmounting), and the times at
  which \<^verbatim>\<open>sync\<close> was started.
\<close>

record Hook =
  timers :: Timers
  cleanup :: "nat option"
  started :: "nat list"

text \<open>
  \<open>RunEffect\<close>: React runs the effect, on mount or because the \<^verbatim>\<open>subscriptions\<close>
  reference changed; the cleanup of the previous run comes first. \<open>Unmount\<close> runs the
  cleanup only. \<open>Elapse d\<close>: \<open>d\<close> milliseconds pass. \<open>Fire i\<close>: the browser runs the
  callback of timer \<open>i\<close>, which is \<^verbatim>\<open>sync\<close>.
\<close>

datatype Event = RunEffect | Unmount | Elapse nat | Fire nat

definition runCleanup :: "Hook \<Rightarrow> Timers" where
  "runCleanup h = (case cleanup h of None \<Rightarrow> timers h | Some timeoutId \<Rightarrow> clearTimeout timeoutId (timers h))"

text \<open>
  A step is \<open>None\<close> when the event cannot happen: a timer that was cleared, has run, or is
  not due yet does not fire.
\<close>

fun step :: "Event \<Rightarrow> Hook \<Rightarrow> Hook option" where
  "step RunEffect h =
     (let (timeoutId, t) = setTimeout 1000 (runCleanup h)
      in Some (h\<lparr>timers := t, cleanup := Some timeoutId\<rparr>))"
| "step Unmount h = Some (h\<lparr>timers := runCleanup h, cleanup := None\<rparr>)"
| "step (Elapse d) h = Some (h\<lparr>timers := (timers h)\<lparr>clock := clock (timers h) + d\<rparr>\<rparr>)"
| "step (Fire i) h =
     (case map_of (pending (timers h)) i of
        None \<Rightarrow> None
      | Some due \<Rightarrow>
          if due \<le> clock (timers h)
          then Some (h\<lparr>timers := clearTimeout i (timers h),
                       started := started h @ [clock (timers h)]\<rparr>)
          else None)"

fun run :: "Event list \<Rightarrow> Hook \<Rightarrow> Hook option" where
  "run [] h = Some h"
| "run (e # es) h = (case step e h of None \<Rightarrow> None | Some h' \<Rightarrow> run es h')"

text \<open>The time that passes during a list of events.\<close>

fun elapsed :: "Event list \<Rightarrow> nat" where
  "elapsed [] = 0"
| "elapsed (Elapse d # es) = d + elapsed es"
| "elapsed (e # es) = elapsed es"

text \<open>
  \<open>withinWindow w es\<close>: every run of the effect in \<open>es\<close> happens before \<open>w\<close> milliseconds
  have passed.
\<close>

fun withinWindow :: "nat \<Rightarrow> Event list \<Rightarrow> bool" where
  "withinWindow w [] = True"
| "withinWindow w (Elapse d # es) = (if d < w then withinWindow (w - d) es else RunEffect \<notin> set es)"
| "withinWindow w (e # es) = withinWindow w es"

text \<open>
  The timers of a hook instance in order: at most one is pending, and it is the one the
  cleanup will clear.
\<close>

definition tidy :: "Hook \<Rightarrow> bool" where
  "tidy h = (length (pending (timers h)) \<le> 1
            \<and> (\<forall>(i, due) \<in> set (pending (timers h)). cleanup h = Some i))"

section \<open>Properties of PasswordGate\<close>

text \<open>
  C7. When the session is already marked unlocked at initialization, the lock state is
  false after the local check and stays false whatever the server replies (or if the
  request fails, or the component is unmounted meanwhile), for every value of
  \<open>passwordAccess\<close> and of the server password flag.
\<close>

theorem init_unlocked_session:
  assumes "isUnlocked storage"
  shows "\<not> isLocked (initLocal settings initialHasEnvPassword storage g)
       \<and> \<not> isLocked (fst (init settings initialHasEnvPassword storage reply mounted g))"
  using assms
  by (simp add: init_def initRemote_def initLocal_def Let_def split: option.splits)

theorem init_unlocked_session_witness:
  "isUnlocked (Map.empty(SESSION_UNLOCKED_KEY \<mapsto> ''true''))
   \<and> \<not> isLocked (fst (init
         \<lparr>passwordAccess = True, accessPasswords = [''a''], subscriptions = [],
          sources = ([] :: nat list), premiumSources = []\<rparr>
         False (Map.empty(SESSION_UNLOCKED_KEY \<mapsto> ''true''))
         (Some \<lparr>hasEnvPassword_data = True, subscriptionSources = (None :: nat option)\<rparr>)
         True (initialState False)))"
proof -
  have h: "isUnlocked (Map.empty(SESSION_UNLOCKED_KEY \<mapsto> ''true''))"
    by (simp add: isUnlocked_def)
  from init_unlocked_session [OF h] show ?thesis
    using h by blast
qed

text \<open>
  C10. A settings-change event with \<open>passwordAccess\<close> off while a server password is
  known takes neither branch of the handler: the whole component state, and with it the
  lock state, is what it was before the event, whatever the session flag is.
\<close>

theorem handleSettingsUpdate_env_only_unchanged:
  assumes "\<not> passwordAccess settings" and "hasEnvPassword g"
  shows "handleSettingsUpdate settings storage g = g"
  using assms by (simp add: handleSettingsUpdate_def)

theorem handleSettingsUpdate_env_only_unchanged_witness:
  "\<not> passwordAccess \<lparr>passwordAccess = False, accessPasswords = [], subscriptions = [],
          sources = ([] :: nat list), premiumSources = []\<rparr>
   \<and> hasEnvPassword ((initialState True)\<lparr>isLocked := False\<rparr>)
   \<and> handleSettingsUpdate
        \<lparr>passwordAccess = False, accessPasswords = [], subscriptions = [],
          sources = ([] :: nat list), premiumSources = []\<rparr>
        Map.empty ((initialState True)\<lparr>isLocked := False\<rparr>)
      = (initialState True)\<lparr>isLocked := False\<rparr>"
proof -
  let ?s = "\<lparr>passwordAccess = False, accessPasswords = [], subscriptions = [],
          sources = ([] :: nat list), premiumSources = []\<rparr>"
  let ?g = "(initialState True)\<lparr>isLocked := False\<rparr>"
  have a: "\<not> passwordAccess ?s" by simp
  have b: "hasEnvPassword ?g" by (simp add: initialState_def)
  from handleSettingsUpdate_env_only_unchanged [OF a b, of Map.empty] a b
  show ?thesis by blast
qed

text \<open>
  C3. An unlock attempt whose candidate is one of the local \<open>accessPasswords\<close> unlocks
  the component, sets the session unlock flag, clears the error flag, and sends nothing
  to the server: the list of requests is the one before the attempt.
\<close>

theorem handleUnlock_local_match:
  assumes "password (gate w) \<in> set (accessPasswords settings)"
  shows "\<not> isLocked (gate (handleUnlock settings server w))
       \<and> isUnlocked (sessionStorage (handleUnlock settings server w))
       \<and> \<not> error (gate (handleUnlock settings server w))
       \<and> posted (handleUnlock settings server w) = posted w"
  using assms by (simp add: handleUnlock_def unlock_def isUnlocked_def Let_def)

theorem handleUnlock_local_match_witness:
  "password (gate \<lparr>gate = (initialState True)\<lparr>password := ''pw'', error := True\<rparr>,
                   sessionStorage = Map.empty, posted = []\<rparr>)
     \<in> set (accessPasswords \<lparr>passwordAccess = True, accessPasswords = [''x'', ''pw''],
          subscriptions = [], sources = ([] :: nat list), premiumSources = []\<rparr>)
   \<and> posted (handleUnlock
        \<lparr>passwordAccess = True, accessPasswords = [''x'', ''pw''],
          subscriptions = [], sources = ([] :: nat list), premiumSources = []\<rparr>
        (\<lambda>c. RequestFailed)
        \<lparr>gate = (initialState True)\<lparr>password := ''pw'', error := True\<rparr>,
          sessionStorage = Map.empty, posted = []\<rparr>) = []
   \<and> \<not> isLocked (gate (handleUnlock
        \<lparr>passwordAccess = True, accessPasswords = [''x'', ''pw''],
          subscriptions = [], sources = ([] :: nat list), premiumSources = []\<rparr>
        (\<lambda>c. RequestFailed)
        \<lparr>gate = (initialState True)\<lparr>password := ''pw'', error := True\<rparr>,
          sessionStorage = Map.empty, posted = []\<rparr>))"
proof -
  let ?s = "\<lparr>passwordAccess = True, accessPasswords = [''x'', ''pw''],
          subscriptions = [], sources = ([] :: nat list), premiumSources = []\<rparr>"
  let ?w = "\<lparr>gate = (initialState True)\<lparr>password := ''pw'', error := True\<rparr>,
          sessionStorage = Map.empty, posted = []\<rparr>"
  have a: "password (gate ?w) \<in> set (accessPasswords ?s)" by simp
  from handleUnlock_local_match [OF a, of "\<lambda>c. RequestFailed"] a
  show ?thesis by simp
qed

text \<open>
  C2. An unlock attempt whose candidate is not among the local \<open>accessPasswords\<close>, while
  a server password is known, sends the candidate to the server once. If the server
  replies valid, the component unlocks and the session flag is set. If the server
  replies not valid or the request fails, the lock state is the one before the attempt
  (so a locked gate remains locked), the session storage is untouched, and the error
  flag is set.
\<close>

theorem handleUnlock_server_check:
  assumes "password (gate w) \<notin> set (accessPasswords settings)" and "hasEnvPassword (gate w)"
  shows "posted (handleUnlock settings server w) = posted w @ [password (gate w)]
       \<and> (server (password (gate w)) = Replied True \<longrightarrow>
            \<not> isLocked (gate (handleUnlock settings server w))
          \<and> isUnlocked (sessionStorage (handleUnlock settings server w)))
       \<and> (server (password (gate w)) = Replied False
            \<or> server (password (gate w)) = RequestFailed \<longrightarrow>
            isLocked (gate (handleUnlock settings server w)) = isLocked (gate w)
          \<and> (isLocked (gate w) \<longrightarrow> isLocked (gate (handleUnlock settings server w)))
          \<and> sessionStorage (handleUnlock settings server w) = sessionStorage w
          \<and> error (gate (handleUnlock settings server w)))"
  using assms
  by (auto simp add: handleUnlock_def unlock_def isUnlocked_def Let_def
           split: Validation.splits bool.splits)

theorem handleUnlock_server_check_witness:
  "(let s = \<lparr>passwordAccess = False, accessPasswords = [''x''],
              subscriptions = [], sources = ([] :: nat list), premiumSources = []\<rparr>;
        w = \<lparr>gate = (initialState True)\<lparr>password := ''pw''\<rparr>,
              sessionStorage = Map.empty, posted = []\<rparr>;
        yes = (\<lambda>c. if c = ''pw'' then Replied True else Replied False);
        no = (\<lambda>c. Replied False);
        down = (\<lambda>c. RequestFailed)
    in password (gate w) \<notin> set (accessPasswords s) \<and> hasEnvPassword (gate w)
     \<and> isLocked (gate w)
     \<and> yes (password (gate w)) = Replied True
     \<and> \<not> isLocked (gate (handleUnlock s yes w))
     \<and> isUnlocked (sessionStorage (handleUnlock s yes w))
     \<and> no (password (gate w)) = Replied False
     \<and> isLocked (gate (handleUnlock s no w)) \<and> error (gate (handleUnlock s no w))
     \<and> down (password (gate w)) = RequestFailed
     \<and> isLocked (gate (handleUnlock s down w)) \<and> error (gate (handleUnlock s down w)))"
proof -
  let ?s = "\<lparr>passwordAccess = False, accessPasswords = [''x''],
              subscriptions = [], sources = ([] :: nat list), premiumSources = []\<rparr>"
  let ?w = "\<lparr>gate = (initialState True)\<lparr>password := ''pw''\<rparr>,
              sessionStorage = Map.empty, posted = []\<rparr>"
  let ?yes = "\<lambda>c. if c = ''pw'' then Replied True else Replied False"
  let ?no = "\<lambda>c::string. Replied False"
  let ?down = "\<lambda>c::string. RequestFailed"
  have a: "password (gate ?w) \<notin> set (accessPasswords ?s)" by simp
  have b: "hasEnvPassword (gate ?w)" by (simp add: initialState_def)
  have l: "isLocked (gate ?w)" by (simp add: initialState_def)
  have y: "?yes (password (gate ?w)) = Replied True" by simp
  have n: "?no (password (gate ?w)) = Replied False" by simp
  have d: "?down (password (gate ?w)) = RequestFailed" by simp
  from handleUnlock_server_check [OF a b, of ?yes] y
  have 1: "\<not> isLocked (gate (handleUnlock ?s ?yes ?w))
         \<and> isUnlocked (sessionStorage (handleUnlock ?s ?yes ?w))" by blast
  from handleUnlock_server_check [OF a b, of ?no] n l
  have 2: "isLocked (gate (handleUnlock ?s ?no ?w)) \<and> error (gate (handleUnlock ?s ?no ?w))"
    by blast
  from handleUnlock_server_check [OF a b, of ?down] d l
  have 3: "isLocked (gate (handleUnlock ?s ?down ?w)) \<and> error (gate (handleUnlock ?s ?down ?w))"
    by blast
  from a b l y n d 1 2 3 show ?thesis unfolding Let_def by blast
qed

text \<open>
  C1, as stated, fails at the settings-change handler: with \<open>passwordAccess\<close> off, a
  server password known, the session not unlocked and the gate open before the event,
  the handler leaves the gate open, while the formula gives locked.
\<close>

theorem handleSettingsUpdate_formula_counterexample:
  "isLocked (handleSettingsUpdate
       \<lparr>passwordAccess = False, accessPasswords = [], subscriptions = [],
         sources = ([] :: nat list), premiumSources = []\<rparr>
       Map.empty ((initialState True)\<lparr>isLocked := False\<rparr>))
   \<noteq> ((passwordAccess \<lparr>passwordAccess = False, accessPasswords = [], subscriptions = [],
         sources = ([] :: nat list), premiumSources = []\<rparr>
        \<or> hasEnvPassword ((initialState True)\<lparr>isLocked := False\<rparr>))
       \<and> \<not> isUnlocked Map.empty)"
  by (simp add: handleSettingsUpdate_def initialState_def isUnlocked_def)

text \<open>
  C1, amended. Initialization sets the lock state to
  \<open>(passwordAccess \<or> envPasswordPresent) \<and> \<not> sessionUnlocked\<close> at both of its points:
  after the local read, with the flag the component was given, and after a successful
  configuration reply to a mounted component, with the flag of the reply; a failed
  request or an unmounted component keeps the local result. The settings-change handler
  sets the lock state to the value of the formula exactly when one of its two guards holds
  (password access off and no server password known; password access on and session not
  unlocked), and otherwise leaves the component state as it was.
\<close>

theorem lock_state_recomputation:
  "isLocked (initLocal settings initialHasEnvPassword storage g)
     = ((passwordAccess settings \<or> initialHasEnvPassword) \<and> \<not> isUnlocked storage)
   \<and> isLocked (fst (init settings initialHasEnvPassword storage (Some data) True g))
     = ((passwordAccess settings \<or> hasEnvPassword_data data) \<and> \<not> isUnlocked storage)
   \<and> isLocked (fst (init settings initialHasEnvPassword storage None mounted g))
     = ((passwordAccess settings \<or> initialHasEnvPassword) \<and> \<not> isUnlocked storage)
   \<and> isLocked (fst (init settings initialHasEnvPassword storage reply False g))
     = ((passwordAccess settings \<or> initialHasEnvPassword) \<and> \<not> isUnlocked storage)
   \<and> ((\<not> passwordAccess settings \<and> \<not> hasEnvPassword g)
        \<or> (passwordAccess settings \<and> \<not> isUnlocked storage) \<longrightarrow>
       isLocked (handleSettingsUpdate settings storage g)
         = ((passwordAccess settings \<or> hasEnvPassword g) \<and> \<not> isUnlocked storage))
   \<and> (\<not> ((\<not> passwordAccess settings \<and> \<not> hasEnvPassword g)
        \<or> (passwordAccess settings \<and> \<not> isUnlocked storage)) \<longrightarrow>
       handleSettingsUpdate settings storage g = g)"
  by (auto simp add: init_def initRemote_def initLocal_def handleSettingsUpdate_def Let_def
           split: option.splits)

theorem lock_state_recomputation_witness:
  "(let s = \<lparr>passwordAccess = True, accessPasswords = [], subscriptions = [],
              sources = ([] :: nat list), premiumSources = []\<rparr>;
        g = (initialState False)\<lparr>isLocked := False\<rparr>
    in ((\<not> passwordAccess s \<and> \<not> hasEnvPassword g)
          \<or> (passwordAccess s \<and> \<not> isUnlocked Map.empty))
     \<and> isLocked (handleSettingsUpdate s Map.empty g)
     \<and> \<not> ((\<not> passwordAccess s \<and> \<not> hasEnvPassword g)
          \<or> (passwordAccess s \<and> \<not> isUnlocked (Map.empty(SESSION_UNLOCKED_KEY \<mapsto> ''true''))))
     \<and> handleSettingsUpdate s (Map.empty(SESSION_UNLOCKED_KEY \<mapsto> ''true'')) g = g)"
proof -
  let ?s = "\<lparr>passwordAccess = True, accessPasswords = [], subscriptions = [],
              sources = ([] :: nat list), premiumSources = []\<rparr>"
  let ?g = "(initialState False)\<lparr>isLocked := False\<rparr>"
  let ?u = "Map.empty(SESSION_UNLOCKED_KEY \<mapsto> ''true'')"
  have a: "(\<not> passwordAccess ?s \<and> \<not> hasEnvPassword ?g)
          \<or> (passwordAccess ?s \<and> \<not> isUnlocked Map.empty)"
    by (simp add: isUnlocked_def)
  have b: "\<not> ((\<not> passwordAccess ?s \<and> \<not> hasEnvPassword ?g)
          \<or> (passwordAccess ?s \<and> \<not> isUnlocked ?u))"
    by (simp add: isUnlocked_def initialState_def)
  have p: "passwordAccess ?s" and q: "\<not> isUnlocked Map.empty"
    by (simp_all add: isUnlocked_def)
  from lock_state_recomputation [of ?s False Map.empty ?g undefined undefined undefined] a p q
  have 1: "isLocked (handleSettingsUpdate ?s Map.empty ?g)" by blast
  from lock_state_recomputation [of ?s False ?u ?g undefined undefined undefined] b
  have 2: "handleSettingsUpdate ?s ?u ?g = ?g" by blast
  from a b 1 2 show ?thesis unfolding Let_def by blast
qed

section \<open>Properties of the sync batch\<close>

lemma syncOne_fetched: "fetched (syncOne env i sub st) = fetched st @ [url sub]"
  by (simp add: syncOne_def Let_def split: option.splits)

lemma syncLoop_fetched: "fetched (syncLoop env i subs st) = fetched st @ map url subs"
  by (induction subs arbitrary: i st) (simp_all add: syncOne_fetched)

lemma syncOne_anyChanged:
  "anyChanged (syncOne env i sub st) = (anyChanged st \<or> delivers env i sub)"
  by (auto simp add: syncOne_def delivers_def Let_def split: option.splits)

lemma syncLoop_anyChanged:
  "anyChanged (syncLoop env i subs st)
     = (anyChanged st \<or> (\<exists>k < length subs. delivers env (i + k) (subs ! k)))"
proof (induction subs arbitrary: i st)
  case Nil
  show ?case by simp
next
  case (Cons sub rest)
  have "(\<exists>k < length (sub # rest). delivers env (i + k) ((sub # rest) ! k))
      = (delivers env i sub \<or> (\<exists>k < length rest. delivers env (Suc i + k) (rest ! k)))"
    (is "?L = ?R")
  proof
    assume ?L
    then obtain k where k: "k < length (sub # rest)" "delivers env (i + k) ((sub # rest) ! k)"
      by blast
    show ?R
    proof (cases k)
      case 0
      with k show ?thesis by simp
    next
      case (Suc m)
      with k have "m < length rest" "delivers env (Suc i + m) (rest ! m)" by simp_all
      then show ?thesis by blast
    qed
  next
    assume ?R
    then show ?L
    proof
      assume "delivers env i sub"
      then have "0 < length (sub # rest) \<and> delivers env (i + 0) ((sub # rest) ! 0)" by simp
      then show ?L by blast
    next
      assume "\<exists>k < length rest. delivers env (Suc i + k) (rest ! k)"
      then obtain m where "m < length rest" "delivers env (Suc i + m) (rest ! m)" by blast
      then have "Suc m < length (sub # rest) \<and> delivers env (i + Suc m) ((sub # rest) ! Suc m)"
        by simp
      then show ?L by blast
    qed
  qed
  then show ?case by (simp add: Cons.IH syncOne_anyChanged)
qed

lemma syncOne_quiet:
  "\<not> delivers env i sub \<Longrightarrow>
     currentSources (syncOne env i sub st) = currentSources st
   \<and> currentPremiumSources (syncOne env i sub st) = currentPremiumSources st"
  by (auto simp add: syncOne_def delivers_def Let_def split: option.splits)

lemma syncLoop_quiet:
  "\<forall>k < length subs. \<not> delivers env (i + k) (subs ! k) \<Longrightarrow>
     currentSources (syncLoop env i subs st) = currentSources st
   \<and> currentPremiumSources (syncLoop env i subs st) = currentPremiumSources st"
proof (induction subs arbitrary: i st)
  case Nil
  show ?case by simp
next
  case (Cons sub rest)
  from Cons.prems have a: "\<not> delivers env i sub" by force
  have b: "\<forall>k < length rest. \<not> delivers env (Suc i + k) (rest ! k)"
  proof (intro allI impI)
    fix k assume "k < length rest"
    then have "Suc k < length (sub # rest)" by simp
    with Cons.prems have "\<not> delivers env (i + Suc k) ((sub # rest) ! Suc k)" by blast
    then show "\<not> delivers env (Suc i + k) (rest ! k)" by simp
  qed
  from Cons.IH [OF b] syncOne_quiet [OF a] show ?case by simp
qed

lemma findIndex_Some:
  "findIndex p xs = Some j \<Longrightarrow> j < length xs \<and> p (xs ! j)"
proof (induction xs arbitrary: j)
  case Nil
  then show ?case by simp
next
  case (Cons x xs)
  show ?case
  proof (cases "p x")
    case True
    with Cons.prems show ?thesis by simp
  next
    case False
    with Cons.prems obtain m where "findIndex p xs = Some m" "j = Suc m" by auto
    with Cons.IH show ?thesis by simp
  qed
qed

lemma findIndex_distinct_update:
  "distinct (map subId us) \<Longrightarrow>
   (case findIndex (\<lambda>s. subId s = k) us of
      None \<Rightarrow> us
    | Some j \<Rightarrow> us[j := (us ! j)\<lparr>lastUpdated := t\<rparr>])
   = map (\<lambda>s. if subId s = k then s\<lparr>lastUpdated := t\<rparr> else s) us"
proof (induction us)
  case Nil
  show ?case by simp
next
  case (Cons x xs)
  show ?case
  proof (cases "subId x = k")
    case True
    with Cons.prems have "k \<notin> subId ` set xs" by simp
    then have "\<forall>s \<in> set xs. subId s \<noteq> k" by blast
    then have "map (\<lambda>s. if subId s = k then s\<lparr>lastUpdated := t\<rparr> else s) xs = xs"
      by (simp add: map_idI)
    with True show ?thesis by simp
  next
    case False
    from Cons.prems have "distinct (map subId xs)" by simp
    from Cons.IH [OF this] False show ?thesis
      by (cases "findIndex (\<lambda>s. subId s = k) xs") simp_all
  qed
qed

lemma syncOne_throws:
  "fetchSourcesFromUrl env i (url sub) = None \<Longrightarrow>
   syncOne env i sub st = st\<lparr>fetched := fetched st @ [url sub]\<rparr>"
  by (simp add: syncOne_def)

lemma syncOne_returns:
  assumes "fetchSourcesFromUrl env i (url sub) = Some r"
    and "distinct (map subId (updatedSubscriptions st))"
  shows "syncOne env i sub st =
     st\<lparr>fetched := fetched st @ [url sub],
        currentSources := (if normalSources r = [] then currentSources st
                           else mergeSources env (currentSources st) (normalSources r)),
        currentPremiumSources := (if premiumSources_result r = [] then currentPremiumSources st
                           else mergeSources env (currentPremiumSources st) (premiumSources_result r)),
        anyChanged := (anyChanged st \<or> normalSources r \<noteq> [] \<or> premiumSources_result r \<noteq> []),
        updatedSubscriptions :=
          map (\<lambda>s. if subId s = subId sub then s\<lparr>lastUpdated := Some (now env i)\<rparr> else s)
            (updatedSubscriptions st)\<rparr>"
proof -
  have u: "(case findIndex (\<lambda>s. subId s = subId sub) (updatedSubscriptions st) of
      None \<Rightarrow> updatedSubscriptions st
    | Some j \<Rightarrow> (updatedSubscriptions st)[j := (updatedSubscriptions st ! j)\<lparr>lastUpdated := Some (now env i)\<rparr>])
   = map (\<lambda>s. if subId s = subId sub then s\<lparr>lastUpdated := Some (now env i)\<rparr> else s) (updatedSubscriptions st)"
    using assms(2) by (rule findIndex_distinct_update)
  show ?thesis
    using assms(1) u
    by (cases "findIndex (\<lambda>s. subId s = subId sub) (updatedSubscriptions st)")
       (simp_all add: syncOne_def Let_def)
qed

lemma stamp_keeps_ids:
  "map subId (map (\<lambda>s. if subId s = k then s\<lparr>lastUpdated := t\<rparr> else s) us) = map subId us"
  by (induction us) simp_all

lemma syncOne_positions:
  assumes "p < length (updatedSubscriptions st)"
  shows "length (updatedSubscriptions (syncOne env i sub st)) = length (updatedSubscriptions st)
       \<and> subId (updatedSubscriptions (syncOne env i sub st) ! p) = subId (updatedSubscriptions st ! p)
       \<and> (lastUpdated (updatedSubscriptions (syncOne env i sub st) ! p)
            = lastUpdated (updatedSubscriptions st ! p)
          \<or> lastUpdated (updatedSubscriptions (syncOne env i sub st) ! p) = Some (now env i))"
proof (cases "fetchSourcesFromUrl env i (url sub)")
  case None
  then show ?thesis by (simp add: syncOne_def)
next
  case (Some r)
  show ?thesis
  proof (cases "findIndex (\<lambda>s. subId s = subId sub) (updatedSubscriptions st)")
    case None
    with Some show ?thesis by (simp add: syncOne_def Let_def)
  next
    case (Some j)
    from findIndex_Some [OF this] have j: "j < length (updatedSubscriptions st)" by simp
    from Some \<open>fetchSourcesFromUrl env i (url sub) = Some r\<close> assms j show ?thesis
      by (cases "p = j") (simp_all add: syncOne_def Let_def)
  qed
qed

lemma syncOne_length:
  "length (updatedSubscriptions (syncOne env i sub st)) = length (updatedSubscriptions st)"
  by (simp add: syncOne_def Let_def split: option.splits)

lemma syncLoop_positions:
  "p < length (updatedSubscriptions st) \<Longrightarrow>
     length (updatedSubscriptions (syncLoop env i subs st)) = length (updatedSubscriptions st)
   \<and> subId (updatedSubscriptions (syncLoop env i subs st) ! p) = subId (updatedSubscriptions st ! p)
   \<and> (lastUpdated (updatedSubscriptions (syncLoop env i subs st) ! p)
        = lastUpdated (updatedSubscriptions st ! p)
      \<or> (\<exists>k. i \<le> k \<and> k < i + length subs
            \<and> lastUpdated (updatedSubscriptions (syncLoop env i subs st) ! p) = Some (now env k)))"
proof (induction subs arbitrary: i st)
  case Nil
  show ?case by simp
next
  case (Cons sub rest)
  let ?st = "syncOne env i sub st"
  from syncOne_positions [OF Cons.prems, of env i sub]
  have one: "length (updatedSubscriptions ?st) = length (updatedSubscriptions st)"
    "subId (updatedSubscriptions ?st ! p) = subId (updatedSubscriptions st ! p)"
    "lastUpdated (updatedSubscriptions ?st ! p) = lastUpdated (updatedSubscriptions st ! p)
       \<or> lastUpdated (updatedSubscriptions ?st ! p) = Some (now env i)"
    by simp_all
  from Cons.prems one(1) have p: "p < length (updatedSubscriptions ?st)" by simp
  from Cons.IH [OF p, of "Suc i"]
  have rest: "length (updatedSubscriptions (syncLoop env (Suc i) rest ?st)) = length (updatedSubscriptions ?st)"
    "subId (updatedSubscriptions (syncLoop env (Suc i) rest ?st) ! p) = subId (updatedSubscriptions ?st ! p)"
    "lastUpdated (updatedSubscriptions (syncLoop env (Suc i) rest ?st) ! p)
        = lastUpdated (updatedSubscriptions ?st ! p)
      \<or> (\<exists>k. Suc i \<le> k \<and> k < Suc i + length rest
            \<and> lastUpdated (updatedSubscriptions (syncLoop env (Suc i) rest ?st) ! p) = Some (now env k))"
    by simp_all
  from rest(3) show ?case
  proof
    assume same: "lastUpdated (updatedSubscriptions (syncLoop env (Suc i) rest ?st) ! p)
        = lastUpdated (updatedSubscriptions ?st ! p)"
    from one(3) show ?thesis
    proof
      assume "lastUpdated (updatedSubscriptions ?st ! p) = lastUpdated (updatedSubscriptions st ! p)"
      with same one rest show ?thesis by simp
    next
      assume "lastUpdated (updatedSubscriptions ?st ! p) = Some (now env i)"
      with same have "i \<le> i \<and> i < i + length (sub # rest)
         \<and> lastUpdated (updatedSubscriptions (syncLoop env (Suc i) rest ?st) ! p) = Some (now env i)"
        by simp
      then have "\<exists>k. i \<le> k \<and> k < i + length (sub # rest)
         \<and> lastUpdated (updatedSubscriptions (syncLoop env (Suc i) rest ?st) ! p) = Some (now env k)"
        by blast
      with one rest show ?thesis by simp
    qed
  next
    assume "\<exists>k. Suc i \<le> k \<and> k < Suc i + length rest
            \<and> lastUpdated (updatedSubscriptions (syncLoop env (Suc i) rest ?st) ! p) = Some (now env k)"
    then obtain k where "Suc i \<le> k" "k < Suc i + length rest"
      "lastUpdated (updatedSubscriptions (syncLoop env (Suc i) rest ?st) ! p) = Some (now env k)"
      by blast
    then have "i \<le> k \<and> k < i + length (sub # rest)
       \<and> lastUpdated (updatedSubscriptions (syncLoop env (Suc i) rest ?st) ! p) = Some (now env k)"
      by simp
    then have "\<exists>k. i \<le> k \<and> k < i + length (sub # rest)
       \<and> lastUpdated (updatedSubscriptions (syncLoop env (Suc i) rest ?st) ! p) = Some (now env k)"
      by blast
    with one rest show ?thesis by simp
  qed
qed

lemma syncLoop_length:
  "length (updatedSubscriptions (syncLoop env i subs st)) = length (updatedSubscriptions st)"
  by (induction subs arbitrary: i st) (simp_all add: syncOne_length)

lemma batch_positions:
  assumes "p < length subs"
  shows "subId (updatedSubscriptions (batch env subs settings) ! p) = subId (subs ! p)
       \<and> (lastUpdated (updatedSubscriptions (batch env subs settings) ! p) = lastUpdated (subs ! p)
          \<or> (\<exists>k < length (activeSubscriptions subs).
                lastUpdated (updatedSubscriptions (batch env subs settings) ! p) = Some (now env k)))"
proof -
  let ?st = "\<lparr>anyChanged = False, currentSources = sources settings,
        currentPremiumSources = premiumSources settings,
        updatedSubscriptions = subs, fetched = []\<rparr>"
  from assms have "p < length (updatedSubscriptions ?st)" by simp
  from syncLoop_positions [OF this, of env 0 "activeSubscriptions subs"]
  show ?thesis by (simp add: batch_def)
qed

lemma batch_length: "length (updatedSubscriptions (batch env subs settings)) = length subs"
  by (simp add: batch_def syncLoop_length)

lemma batch_anyChanged:
  "anyChanged (batch env subs settings)
     = (\<exists>k < length (activeSubscriptions subs). delivers env k (activeSubscriptions subs ! k))"
  by (simp add: batch_def syncLoop_anyChanged)

lemma batch_quiet:
  "\<not> (\<exists>k < length (activeSubscriptions subs). delivers env k (activeSubscriptions subs ! k)) \<Longrightarrow>
     currentSources (batch env subs settings) = sources settings
   \<and> currentPremiumSources (batch env subs settings) = premiumSources settings"
  using syncLoop_quiet [of "activeSubscriptions subs" env 0]
  by (simp add: batch_def)

lemma batch_fetched: "fetched (batch env subs settings) = map url (activeSubscriptions subs)"
  by (simp add: batch_def syncLoop_fetched)

text \<open>
  C5, amended. The batch writes when a fetch of an active subscription returned a
  non-empty normal or premium list, whether or not merging it altered the lists: then
  there is exactly one \<^verbatim>\<open>saveSettings\<close> call, and it carries the settings read at the
  start with the three fields \<open>sources\<close>, \<open>premiumSources\<close> and \<open>subscriptions\<close>
  replaced by the batch's copies. When no fetch returned a non-empty list there is no
  call and the store is untouched. Whenever one of the two source lists did change, the
  first case applies.
\<close>

theorem sync_write_once:
  "((\<exists>k < length (activeSubscriptions subs). delivers env k (activeSubscriptions subs ! k)) \<longrightarrow>
      content (fst (sync env subs store))
        = (getSettings store)
            \<lparr>sources := currentSources (batch env subs (getSettings store)),
             premiumSources := currentPremiumSources (batch env subs (getSettings store)),
             subscriptions := updatedSubscriptions (batch env subs (getSettings store))\<rparr>
    \<and> saveCalls (fst (sync env subs store))
        = saveCalls store @ [content (fst (sync env subs store))])
   \<and> (\<not> (\<exists>k < length (activeSubscriptions subs). delivers env k (activeSubscriptions subs ! k)) \<longrightarrow>
      fst (sync env subs store) = store)
   \<and> (currentSources (batch env subs (getSettings store)) \<noteq> sources (getSettings store)
        \<or> currentPremiumSources (batch env subs (getSettings store))
             \<noteq> premiumSources (getSettings store) \<longrightarrow>
      (\<exists>k < length (activeSubscriptions subs). delivers env k (activeSubscriptions subs ! k)))"
proof (intro conjI impI)
  assume d: "\<exists>k < length (activeSubscriptions subs). delivers env k (activeSubscriptions subs ! k)"
  then have ne: "length (activeSubscriptions subs) \<noteq> 0" by auto
  from d have ch: "anyChanged (batch env subs (getSettings store))"
    by (simp add: batch_anyChanged)
  from ne ch show "content (fst (sync env subs store))
        = (getSettings store)
            \<lparr>sources := currentSources (batch env subs (getSettings store)),
             premiumSources := currentPremiumSources (batch env subs (getSettings store)),
             subscriptions := updatedSubscriptions (batch env subs (getSettings store))\<rparr>"
    by (simp add: sync_def Let_def saveSettings_def)
  from ne ch show "saveCalls (fst (sync env subs store))
        = saveCalls store @ [content (fst (sync env subs store))]"
    by (simp add: sync_def Let_def saveSettings_def)
next
  assume n: "\<not> (\<exists>k < length (activeSubscriptions subs). delivers env k (activeSubscriptions subs ! k))"
  then have "\<not> anyChanged (batch env subs (getSettings store))"
    by (simp add: batch_anyChanged)
  then show "fst (sync env subs store) = store"
    by (simp add: sync_def Let_def)
next
  assume c: "currentSources (batch env subs (getSettings store)) \<noteq> sources (getSettings store)
        \<or> currentPremiumSources (batch env subs (getSettings store))
             \<noteq> premiumSources (getSettings store)"
  show "\<exists>k < length (activeSubscriptions subs). delivers env k (activeSubscriptions subs ! k)"
  proof (rule ccontr)
    assume "\<not> (\<exists>k < length (activeSubscriptions subs). delivers env k (activeSubscriptions subs ! k))"
    from batch_quiet [OF this] c show False by blast
  qed
qed

text \<open>
  C9. When every fetch of the batch that returns gives an empty normal and an empty
  premium list, all active subscriptions are still fetched, but the store after the batch
  is the store before it: no \<^verbatim>\<open>saveSettings\<close> call is made, so the timestamps written
  into the local copy of the subscriptions are never persisted.
\<close>

theorem sync_empty_results_no_write:
  assumes "\<forall>k < length (activeSubscriptions subs). \<forall>r.
             fetchSourcesFromUrl env k (url (activeSubscriptions subs ! k)) = Some r \<longrightarrow>
             normalSources r = [] \<and> premiumSources_result r = []"
  shows "fst (sync env subs store) = store
       \<and> snd (sync env subs store) = map url (activeSubscriptions subs)"
proof -
  from assms
  have "\<not> (\<exists>k < length (activeSubscriptions subs). delivers env k (activeSubscriptions subs ! k))"
    by (auto simp add: delivers_def split: option.splits)
  then have "\<not> anyChanged (batch env subs (getSettings store))"
    by (simp add: batch_anyChanged)
  then show ?thesis
    by (simp add: sync_def Let_def batch_fetched)
qed

text \<open>
  C8, amended. Provided that no clock reading taken during the batch is earlier than a
  timestamp already stored, and that the hook's copy of the subscriptions is the stored
  list, the subscriptions stored after the batch are the same subscriptions in the same
  places, and each \<open>lastUpdated\<close> is either what it was or a timestamp no earlier than
  the previous one.
\<close>

theorem lastUpdated_not_earlier:
  assumes mirror: "subscriptions (content store) = subs"
    and clock: "\<forall>k < length (activeSubscriptions subs). \<forall>s \<in> set subs.
                  notEarlier (lastUpdated s) (Some (now env k))"
  shows "length (subscriptions (content (fst (sync env subs store)))) = length subs
       \<and> (\<forall>p < length subs.
            subId (subscriptions (content (fst (sync env subs store))) ! p) = subId (subs ! p)
          \<and> (lastUpdated (subscriptions (content (fst (sync env subs store))) ! p)
               = lastUpdated (subs ! p)
             \<or> (\<exists>t. lastUpdated (subscriptions (content (fst (sync env subs store))) ! p) = Some t
                  \<and> notEarlier (lastUpdated (subs ! p)) (Some t))))"
proof (cases "length (activeSubscriptions subs) \<noteq> 0
              \<and> anyChanged (batch env subs (getSettings store))")
  case False
  then have "fst (sync env subs store) = store"
    by (auto simp add: sync_def Let_def)
  with mirror show ?thesis by simp
next
  case True
  then have new: "subscriptions (content (fst (sync env subs store)))
      = updatedSubscriptions (batch env subs (getSettings store))"
    by (simp add: sync_def Let_def saveSettings_def)
  show ?thesis
  proof (intro conjI allI impI)
    show "length (subscriptions (content (fst (sync env subs store)))) = length subs"
      by (simp add: new batch_length)
  next
    fix p assume p: "p < length subs"
    from batch_positions [OF p, of env "getSettings store"]
    show "subId (subscriptions (content (fst (sync env subs store))) ! p) = subId (subs ! p)"
      by (simp add: new)
  next
    fix p assume p: "p < length subs"
    from batch_positions [OF p, of env "getSettings store"]
    have "lastUpdated (updatedSubscriptions (batch env subs (getSettings store)) ! p)
            = lastUpdated (subs ! p)
          \<or> (\<exists>k < length (activeSubscriptions subs).
                lastUpdated (updatedSubscriptions (batch env subs (getSettings store)) ! p)
                  = Some (now env k))"
      by simp
    then show "lastUpdated (subscriptions (content (fst (sync env subs store))) ! p)
               = lastUpdated (subs ! p)
             \<or> (\<exists>t. lastUpdated (subscriptions (content (fst (sync env subs store))) ! p) = Some t
                  \<and> notEarlier (lastUpdated (subs ! p)) (Some t))"
    proof
      assume "lastUpdated (updatedSubscriptions (batch env subs (getSettings store)) ! p)
            = lastUpdated (subs ! p)"
      then show ?thesis by (simp add: new)
    next
      assume "\<exists>k < length (activeSubscriptions subs).
                lastUpdated (updatedSubscriptions (batch env subs (getSettings store)) ! p)
                  = Some (now env k)"
      then obtain k where k: "k < length (activeSubscriptions subs)"
        "lastUpdated (updatedSubscriptions (batch env subs (getSettings store)) ! p)
                  = Some (now env k)" by blast
      from p have "subs ! p \<in> set subs" by simp
      with clock k(1) have "notEarlier (lastUpdated (subs ! p)) (Some (now env k))" by blast
      with k(2) show ?thesis by (simp add: new)
    qed
  qed
qed

text \<open>
  C4. A batch over three active subscriptions with distinct ids (ids are unique in the
  data model), in which the first and the third fetch return something and the second
  throws: all three addresses are fetched, in order, so the failure does not end the
  batch; one \<^verbatim>\<open>saveSettings\<close> call is made; the saved source lists are the stored ones
  with the non-empty lists of the first and then of the third result merged in; in the
  saved subscriptions the first and the third carry the clock readings of their
  iterations, and every other subscription, the second among them, is as it was.
\<close>

theorem sync_second_fetch_fails:
  assumes active: "activeSubscriptions subs = [s1, s2, s3]"
    and ids: "distinct (map subId subs)"
    and f1: "fetchSourcesFromUrl env 0 (url s1) = Some r1"
    and f2: "fetchSourcesFromUrl env 1 (url s2) = None"
    and f3: "fetchSourcesFromUrl env 2 (url s3) = Some r3"
    and n1: "normalSources r1 \<noteq> [] \<or> premiumSources_result r1 \<noteq> []"
    and n3: "normalSources r3 \<noteq> [] \<or> premiumSources_result r3 \<noteq> []"
  shows "snd (sync env subs store) = [url s1, url s2, url s3]
       \<and> saveCalls (fst (sync env subs store))
           = saveCalls store @ [content (fst (sync env subs store))]
       \<and> sources (content (fst (sync env subs store)))
           = (let merged1 = (if normalSources r1 = [] then sources (getSettings store)
                             else mergeSources env (sources (getSettings store)) (normalSources r1))
              in if normalSources r3 = [] then merged1
                 else mergeSources env merged1 (normalSources r3))
       \<and> premiumSources (content (fst (sync env subs store)))
           = (let merged1 = (if premiumSources_result r1 = [] then premiumSources (getSettings store)
                             else mergeSources env (premiumSources (getSettings store))
                                    (premiumSources_result r1))
              in if premiumSources_result r3 = [] then merged1
                 else mergeSources env merged1 (premiumSources_result r3))
       \<and> subscriptions (content (fst (sync env subs store)))
           = map (\<lambda>s. if subId s = subId s1 then s\<lparr>lastUpdated := Some (now env 0)\<rparr>
                      else if subId s = subId s3 then s\<lparr>lastUpdated := Some (now env 2)\<rparr>
                      else s) subs
       \<and> s1\<lparr>lastUpdated := Some (now env 0)\<rparr> \<in> set (subscriptions (content (fst (sync env subs store))))
       \<and> s2 \<in> set (subscriptions (content (fst (sync env subs store))))
       \<and> s3\<lparr>lastUpdated := Some (now env 2)\<rparr> \<in> set (subscriptions (content (fst (sync env subs store))))"
proof -
  let ?settings = "getSettings store"
  let ?st0 = "\<lparr>anyChanged = False, currentSources = sources ?settings,
        currentPremiumSources = premiumSources ?settings,
        updatedSubscriptions = subs, fetched = []\<rparr>"
  let ?stamp1 = "\<lambda>s. if subId s = subId s1 then s\<lparr>lastUpdated := Some (now env 0)\<rparr> else s"
  let ?stamp3 = "\<lambda>s. if subId s = subId s3 then s\<lparr>lastUpdated := Some (now env 2)\<rparr> else s"
  let ?both = "\<lambda>s. if subId s = subId s1 then s\<lparr>lastUpdated := Some (now env 0)\<rparr>
                      else if subId s = subId s3 then s\<lparr>lastUpdated := Some (now env 2)\<rparr>
                      else s"
  define st1 where "st1 = syncOne env 0 s1 ?st0"
  define st2 where "st2 = syncOne env (Suc 0) s2 st1"
  define st3 where "st3 = syncOne env (Suc (Suc 0)) s3 st2"
  have "distinct (map subId (activeSubscriptions subs))"
    unfolding activeSubscriptions_def using ids by (rule distinct_map_filter)
  with active have diff: "subId s1 \<noteq> subId s2" "subId s1 \<noteq> subId s3" "subId s2 \<noteq> subId s3"
    by simp_all
  have "set (activeSubscriptions subs) \<subseteq> set subs"
    by (simp add: activeSubscriptions_def)
  with active have mem: "s1 \<in> set subs" "s2 \<in> set subs" "s3 \<in> set subs" by simp_all
  have f2': "fetchSourcesFromUrl env (Suc 0) (url s2) = None" using f2 by simp
  have f3': "fetchSourcesFromUrl env (Suc (Suc 0)) (url s3) = Some r3"
    using f3 by (simp add: numeral_2_eq_2)
  have now2: "now env (Suc (Suc 0)) = now env 2" by (simp add: numeral_2_eq_2)
  have d0: "distinct (map subId (updatedSubscriptions ?st0))" using ids by simp
  have st1: "st1 = ?st0\<lparr>fetched := [url s1],
        currentSources := (if normalSources r1 = [] then sources ?settings
                           else mergeSources env (sources ?settings) (normalSources r1)),
        currentPremiumSources := (if premiumSources_result r1 = [] then premiumSources ?settings
                           else mergeSources env (premiumSources ?settings) (premiumSources_result r1)),
        anyChanged := True,
        updatedSubscriptions := map ?stamp1 subs\<rparr>"
    unfolding st1_def using syncOne_returns [OF f1 d0] n1 by simp
  have st2: "st2 = st1\<lparr>fetched := fetched st1 @ [url s2]\<rparr>"
    unfolding st2_def by (rule syncOne_throws [OF f2'])
  have keep: "map subId (map ?stamp1 subs) = map subId subs" by (rule stamp_keeps_ids)
  have us2: "updatedSubscriptions st2 = map ?stamp1 subs" by (simp add: st2 st1)
  have d2: "distinct (map subId (updatedSubscriptions st2))"
    using ids by (simp only: us2 keep)
  have st3: "st3 = st2\<lparr>fetched := fetched st2 @ [url s3],
        currentSources := (if normalSources r3 = [] then currentSources st2
                           else mergeSources env (currentSources st2) (normalSources r3)),
        currentPremiumSources := (if premiumSources_result r3 = [] then currentPremiumSources st2
                           else mergeSources env (currentPremiumSources st2) (premiumSources_result r3)),
        anyChanged := (anyChanged st2 \<or> normalSources r3 \<noteq> [] \<or> premiumSources_result r3 \<noteq> []),
        updatedSubscriptions :=
          map (\<lambda>s. if subId s = subId s3 then s\<lparr>lastUpdated := Some (now env (Suc (Suc 0)))\<rparr> else s)
            (updatedSubscriptions st2)\<rparr>"
    unfolding st3_def by (rule syncOne_returns [OF f3' d2])
  have comp: "map ?stamp3 (map ?stamp1 subs) = map ?both subs"
    using diff(2) by (induction subs) auto
  have "updatedSubscriptions st3
      = map (\<lambda>s. if subId s = subId s3 then s\<lparr>lastUpdated := Some (now env (Suc (Suc 0)))\<rparr> else s)
          (updatedSubscriptions st2)"
    by (simp add: st3)
  then have us3: "updatedSubscriptions st3 = map ?both subs"
    by (simp only: us2 now2 comp)
  have cs3: "currentSources st3
      = (let merged1 = (if normalSources r1 = [] then sources ?settings
                             else mergeSources env (sources ?settings) (normalSources r1))
              in if normalSources r3 = [] then merged1
                 else mergeSources env merged1 (normalSources r3))"
    by (simp add: st3 st2 st1 Let_def)
  have cp3: "currentPremiumSources st3
      = (let merged1 = (if premiumSources_result r1 = [] then premiumSources ?settings
                             else mergeSources env (premiumSources ?settings)
                                    (premiumSources_result r1))
              in if premiumSources_result r3 = [] then merged1
                 else mergeSources env merged1 (premiumSources_result r3))"
    by (simp add: st3 st2 st1 Let_def)
  have ch3: "anyChanged st3" by (simp add: st3 st2 st1)
  have fe3: "fetched st3 = [url s1, url s2, url s3]" by (simp add: st3 st2 st1)
  have b: "batch env subs ?settings = st3"
    by (simp add: batch_def active st3_def st2_def st1_def)
  have len: "length (activeSubscriptions subs) \<noteq> 0" by (simp add: active)
  have res: "sync env subs store
      = (saveSettings (?settings\<lparr>sources := currentSources st3,
                                premiumSources := currentPremiumSources st3,
                                subscriptions := updatedSubscriptions st3\<rparr>) store,
         fetched st3)"
    using len ch3 by (simp add: sync_def Let_def b)
  have subs': "subscriptions (content (fst (sync env subs store))) = map ?both subs"
    by (simp add: res saveSettings_def us3)
  have m1: "?both s1 \<in> set (map ?both subs)" using mem(1) by (simp only: set_map) (rule imageI)
  have m2: "?both s2 \<in> set (map ?both subs)" using mem(2) by (simp only: set_map) (rule imageI)
  have m3: "?both s3 \<in> set (map ?both subs)" using mem(3) by (simp only: set_map) (rule imageI)
  have e1: "?both s1 = s1\<lparr>lastUpdated := Some (now env 0)\<rparr>" by simp
  have e2: "?both s2 = s2" using diff by simp
  have e3: "?both s3 = s3\<lparr>lastUpdated := Some (now env 2)\<rparr>" using diff by simp
  show ?thesis
  proof (intro conjI)
    show "snd (sync env subs store) = [url s1, url s2, url s3]" by (simp add: res fe3)
    show "saveCalls (fst (sync env subs store))
           = saveCalls store @ [content (fst (sync env subs store))]"
      by (simp add: res saveSettings_def)
    show "sources (content (fst (sync env subs store)))
           = (let merged1 = (if normalSources r1 = [] then sources (getSettings store)
                             else mergeSources env (sources (getSettings store)) (normalSources r1))
              in if normalSources r3 = [] then merged1
                 else mergeSources env merged1 (normalSources r3))"
      using cs3 by (simp add: res saveSettings_def)
    show "premiumSources (content (fst (sync env subs store)))
           = (let merged1 = (if premiumSources_result r1 = [] then premiumSources (getSettings store)
                             else mergeSources env (premiumSources (getSettings store))
                                    (premiumSources_result r1))
              in if premiumSources_result r3 = [] then merged1
                 else mergeSources env merged1 (premiumSources_result r3))"
      using cp3 by (simp add: res saveSettings_def)
    show "subscriptions (content (fst (sync env subs store))) = map ?both subs" by (rule subs')
    show "s1\<lparr>lastUpdated := Some (now env 0)\<rparr> \<in> set (subscriptions (content (fst (sync env subs store))))"
      using m1 e1 subs' by simp
    show "s2 \<in> set (subscriptions (content (fst (sync env subs store))))"
      using m2 e2 subs' by simp
    show "s3\<lparr>lastUpdated := Some (now env 2)\<rparr> \<in> set (subscriptions (content (fst (sync env subs store))))"
      using m3 e3 subs' by simp
  qed
qed

theorem sync_second_fetch_fails_witness:
  "(let a = \<lparr>subId = ''a'', url = ''ua'', name = ''A'', autoRefresh = None, lastUpdated = None\<rparr>;
        b = \<lparr>subId = ''b'', url = ''ub'', name = ''B'', autoRefresh = Some True, lastUpdated = Some 5\<rparr>;
        c = \<lparr>subId = ''c'', url = ''uc'', name = ''C'', autoRefresh = None, lastUpdated = Some 6\<rparr>;
        d = \<lparr>subId = ''d'', url = ''ud'', name = ''D'', autoRefresh = Some False, lastUpdated = None\<rparr>;
        r1 = \<lparr>normalSources = [10::nat], premiumSources_result = []\<rparr>;
        r3 = \<lparr>normalSources = [], premiumSources_result = [30]\<rparr>;
        env = \<lparr>fetchSourcesFromUrl = (\<lambda>i u. if u = ''ua'' then Some r1
                                              else if u = ''uc'' then Some r3 else None),
               mergeSources = mergeSources_dedup, now = (\<lambda>i. 100 + int i)\<rparr>;
        store = \<lparr>content = \<lparr>passwordAccess = False, accessPasswords = [],
                   subscriptions = [a, d, b, c], sources = [1], premiumSources = []\<rparr>,
                 saveCalls = []\<rparr>
    in activeSubscriptions [a, d, b, c] = [a, b, c]
     \<and> distinct (map subId [a, d, b, c])
     \<and> fetchSourcesFromUrl env 0 (url a) = Some r1
     \<and> fetchSourcesFromUrl env 1 (url b) = None
     \<and> fetchSourcesFromUrl env 2 (url c) = Some r3
     \<and> (normalSources r1 \<noteq> [] \<or> premiumSources_result r1 \<noteq> [])
     \<and> (normalSources r3 \<noteq> [] \<or> premiumSources_result r3 \<noteq> [])
     \<and> snd (sync env [a, d, b, c] store) = [''ua'', ''ub'', ''uc'']
     \<and> length (saveCalls (fst (sync env [a, d, b, c] store))) = 1
     \<and> sources (content (fst (sync env [a, d, b, c] store))) = [1, 10]
     \<and> premiumSources (content (fst (sync env [a, d, b, c] store))) = [30]
     \<and> subscriptions (content (fst (sync env [a, d, b, c] store)))
         = [a\<lparr>lastUpdated := Some 100\<rparr>, d, b, c\<lparr>lastUpdated := Some 102\<rparr>])"
proof -
  let ?a = "\<lparr>subId = ''a'', url = ''ua'', name = ''A'', autoRefresh = None, lastUpdated = None\<rparr>"
  let ?b = "\<lparr>subId = ''b'', url = ''ub'', name = ''B'', autoRefresh = Some True, lastUpdated = Some 5\<rparr>"
  let ?c = "\<lparr>subId = ''c'', url = ''uc'', name = ''C'', autoRefresh = None, lastUpdated = Some 6\<rparr>"
  let ?d = "\<lparr>subId = ''d'', url = ''ud'', name = ''D'', autoRefresh = Some False, lastUpdated = None\<rparr>"
  let ?r1 = "\<lparr>normalSources = [10::nat], premiumSources_result = []\<rparr>"
  let ?r3 = "\<lparr>normalSources = [], premiumSources_result = [30::nat]\<rparr>"
  let ?env = "\<lparr>fetchSourcesFromUrl = (\<lambda>i u. if u = ''ua'' then Some ?r1
                                              else if u = ''uc'' then Some ?r3 else None),
               mergeSources = mergeSources_dedup, now = (\<lambda>i. 100 + int i)\<rparr>"
  let ?store = "\<lparr>content = \<lparr>passwordAccess = False, accessPasswords = [],
                   subscriptions = [?a, ?d, ?b, ?c], sources = [1::nat], premiumSources = []\<rparr>,
                 saveCalls = []\<rparr>"
  have h1: "activeSubscriptions [?a, ?d, ?b, ?c] = [?a, ?b, ?c]"
    by (simp add: activeSubscriptions_def)
  have h2: "distinct (map subId [?a, ?d, ?b, ?c])" by simp
  have h3: "fetchSourcesFromUrl ?env 0 (url ?a) = Some ?r1" by simp
  have h4: "fetchSourcesFromUrl ?env 1 (url ?b) = None" by simp
  have h5: "fetchSourcesFromUrl ?env 2 (url ?c) = Some ?r3" by simp
  have h6: "normalSources ?r1 \<noteq> [] \<or> premiumSources_result ?r1 \<noteq> []" by simp
  have h7: "normalSources ?r3 \<noteq> [] \<or> premiumSources_result ?r3 \<noteq> []" by simp
  from sync_second_fetch_fails [OF h1 h2 h3 h4 h5 h6 h7, of ?store]
  have "snd (sync ?env [?a, ?d, ?b, ?c] ?store) = [''ua'', ''ub'', ''uc'']
     \<and> length (saveCalls (fst (sync ?env [?a, ?d, ?b, ?c] ?store))) = 1
     \<and> sources (content (fst (sync ?env [?a, ?d, ?b, ?c] ?store))) = [1, 10]
     \<and> premiumSources (content (fst (sync ?env [?a, ?d, ?b, ?c] ?store))) = [30]
     \<and> subscriptions (content (fst (sync ?env [?a, ?d, ?b, ?c] ?store)))
         = [?a\<lparr>lastUpdated := Some 100\<rparr>, ?d, ?b, ?c\<lparr>lastUpdated := Some 102\<rparr>]"
    by (simp add: getSettings_def mergeSources_dedup_def)
  with h1 h2 h3 h4 h5 h6 h7 show ?thesis unfolding Let_def by blast
qed

text \<open>
  C5, as stated, fails when a fetch returns only sources that are already stored: with
  a merge that does not duplicate entries both source lists are what they were, and yet
  \<^verbatim>\<open>saveSettings\<close> is called.
\<close>

theorem sync_unchanged_lists_counterexample:
  "sources (content (fst (sync
       \<lparr>fetchSourcesFromUrl = (\<lambda>i u. Some \<lparr>normalSources = [1::nat], premiumSources_result = []\<rparr>),
        mergeSources = mergeSources_dedup, now = (\<lambda>i. 7)\<rparr>
       [\<lparr>subId = ''a'', url = ''ua'', name = ''A'', autoRefresh = None, lastUpdated = None\<rparr>]
       \<lparr>content = \<lparr>passwordAccess = False, accessPasswords = [],
           subscriptions = [\<lparr>subId = ''a'', url = ''ua'', name = ''A'', autoRefresh = None,
                             lastUpdated = None\<rparr>],
           sources = [1], premiumSources = []\<rparr>,
        saveCalls = []\<rparr>))) = [1]
   \<and> premiumSources (content (fst (sync
       \<lparr>fetchSourcesFromUrl = (\<lambda>i u. Some \<lparr>normalSources = [1::nat], premiumSources_result = []\<rparr>),
        mergeSources = mergeSources_dedup, now = (\<lambda>i. 7)\<rparr>
       [\<lparr>subId = ''a'', url = ''ua'', name = ''A'', autoRefresh = None, lastUpdated = None\<rparr>]
       \<lparr>content = \<lparr>passwordAccess = False, accessPasswords = [],
           subscriptions = [\<lparr>subId = ''a'', url = ''ua'', name = ''A'', autoRefresh = None,
                             lastUpdated = None\<rparr>],
           sources = [1], premiumSources = []\<rparr>,
        saveCalls = []\<rparr>))) = []
   \<and> length (saveCalls (fst (sync
       \<lparr>fetchSourcesFromUrl = (\<lambda>i u. Some \<lparr>normalSources = [1::nat], premiumSources_result = []\<rparr>),
        mergeSources = mergeSources_dedup, now = (\<lambda>i. 7)\<rparr>
       [\<lparr>subId = ''a'', url = ''ua'', name = ''A'', autoRefresh = None, lastUpdated = None\<rparr>]
       \<lparr>content = \<lparr>passwordAccess = False, accessPasswords = [],
           subscriptions = [\<lparr>subId = ''a'', url = ''ua'', name = ''A'', autoRefresh = None,
                             lastUpdated = None\<rparr>],
           sources = [1], premiumSources = []\<rparr>,
        saveCalls = []\<rparr>))) = 1"
  by (simp add: sync_def batch_def activeSubscriptions_def syncOne_def getSettings_def
        saveSettings_def mergeSources_dedup_def Let_def)

theorem sync_write_once_witness:
  "(let a = \<lparr>subId = ''a'', url = ''ua'', name = ''A'', autoRefresh = None, lastUpdated = None\<rparr>;
        up = \<lparr>fetchSourcesFromUrl = (\<lambda>i u. Some \<lparr>normalSources = [2::nat], premiumSources_result = []\<rparr>),
               mergeSources = mergeSources_dedup, now = (\<lambda>i. 7)\<rparr>;
        down = \<lparr>fetchSourcesFromUrl = (\<lambda>i u. None),
               mergeSources = mergeSources_dedup, now = (\<lambda>i. 7)\<rparr>;
        store = \<lparr>content = \<lparr>passwordAccess = False, accessPasswords = [],
                   subscriptions = [a], sources = [1::nat], premiumSources = []\<rparr>,
                 saveCalls = []\<rparr>
    in (\<exists>k < length (activeSubscriptions [a]). delivers up k (activeSubscriptions [a] ! k))
     \<and> currentSources (batch up [a] (getSettings store)) \<noteq> sources (getSettings store)
     \<and> saveCalls (fst (sync up [a] store))
         = [\<lparr>passwordAccess = False, accessPasswords = [],
             subscriptions = [a\<lparr>lastUpdated := Some 7\<rparr>], sources = [1, 2], premiumSources = []\<rparr>]
     \<and> \<not> (\<exists>k < length (activeSubscriptions [a]). delivers down k (activeSubscriptions [a] ! k))
     \<and> fst (sync down [a] store) = store)"
proof -
  let ?a = "\<lparr>subId = ''a'', url = ''ua'', name = ''A'', autoRefresh = None, lastUpdated = None\<rparr>"
  let ?up = "\<lparr>fetchSourcesFromUrl = (\<lambda>i u. Some \<lparr>normalSources = [2::nat], premiumSources_result = []\<rparr>),
               mergeSources = mergeSources_dedup, now = (\<lambda>i. 7)\<rparr>"
  let ?down = "\<lparr>fetchSourcesFromUrl = (\<lambda>i u. None),
               mergeSources = (mergeSources_dedup :: nat list \<Rightarrow> nat list \<Rightarrow> nat list), now = (\<lambda>i. 7)\<rparr>"
  let ?store = "\<lparr>content = \<lparr>passwordAccess = False, accessPasswords = [],
                   subscriptions = [?a], sources = [1::nat], premiumSources = []\<rparr>,
                 saveCalls = []\<rparr>"
  have d: "\<exists>k < length (activeSubscriptions [?a]). delivers ?up k (activeSubscriptions [?a] ! k)"
    by (simp add: activeSubscriptions_def delivers_def)
  have n: "\<not> (\<exists>k < length (activeSubscriptions [?a]). delivers ?down k (activeSubscriptions [?a] ! k))"
    by (simp add: activeSubscriptions_def delivers_def)
  have c: "currentSources (batch ?up [?a] (getSettings ?store)) \<noteq> sources (getSettings ?store)"
    by (simp add: batch_def activeSubscriptions_def syncOne_def getSettings_def
          mergeSources_dedup_def Let_def)
  have b: "batch ?up [?a] (getSettings ?store)
      = \<lparr>anyChanged = True, currentSources = [1, 2], currentPremiumSources = [],
         updatedSubscriptions = [?a\<lparr>lastUpdated := Some 7\<rparr>], fetched = [''ua'']\<rparr>"
    by (simp add: batch_def activeSubscriptions_def syncOne_def getSettings_def
          mergeSources_dedup_def Let_def)
  from sync_write_once [of "[?a]" ?up ?store] d
  have "content (fst (sync ?up [?a] ?store))
        = (getSettings ?store)
            \<lparr>sources := currentSources (batch ?up [?a] (getSettings ?store)),
             premiumSources := currentPremiumSources (batch ?up [?a] (getSettings ?store)),
             subscriptions := updatedSubscriptions (batch ?up [?a] (getSettings ?store))\<rparr>"
    and "saveCalls (fst (sync ?up [?a] ?store))
        = saveCalls ?store @ [content (fst (sync ?up [?a] ?store))]"
    by blast+
  then have "saveCalls (fst (sync ?up [?a] ?store))
        = saveCalls ?store @ [(getSettings ?store)
            \<lparr>sources := currentSources (batch ?up [?a] (getSettings ?store)),
             premiumSources := currentPremiumSources (batch ?up [?a] (getSettings ?store)),
             subscriptions := updatedSubscriptions (batch ?up [?a] (getSettings ?store))\<rparr>]"
    by (simp only:)
  then have 1: "saveCalls (fst (sync ?up [?a] ?store))
         = [\<lparr>passwordAccess = False, accessPasswords = [],
             subscriptions = [?a\<lparr>lastUpdated := Some 7\<rparr>], sources = [1, 2], premiumSources = []\<rparr>]"
    unfolding b by (simp add: getSettings_def)
  from sync_write_once [of "[?a]" ?down ?store] n
  have 2: "fst (sync ?down [?a] ?store) = ?store" by blast
  from d n c 1 2 show ?thesis unfolding Let_def by blast
qed

text \<open>
  C8, as stated, fails when the clock reads earlier than a stored timestamp: the batch
  overwrites \<open>lastUpdated = 100\<close> by the reading \<open>50\<close>.
\<close>

theorem lastUpdated_clock_counterexample:
  "lastUpdated (subscriptions (content (fst (sync
       \<lparr>fetchSourcesFromUrl = (\<lambda>i u. Some \<lparr>normalSources = [2::nat], premiumSources_result = []\<rparr>),
        mergeSources = mergeSources_dedup, now = (\<lambda>i. 50)\<rparr>
       [\<lparr>subId = ''a'', url = ''ua'', name = ''A'', autoRefresh = None, lastUpdated = Some 100\<rparr>]
       \<lparr>content = \<lparr>passwordAccess = False, accessPasswords = [],
           subscriptions = [\<lparr>subId = ''a'', url = ''ua'', name = ''A'', autoRefresh = None,
                             lastUpdated = Some 100\<rparr>],
           sources = [1], premiumSources = []\<rparr>,
        saveCalls = []\<rparr>))) ! 0) = Some 50
   \<and> \<not> notEarlier (Some 100) (Some 50)"
  by (simp add: sync_def batch_def activeSubscriptions_def syncOne_def getSettings_def
        saveSettings_def mergeSources_dedup_def Let_def)

theorem lastUpdated_not_earlier_witness:
  "(let a = \<lparr>subId = ''a'', url = ''ua'', name = ''A'', autoRefresh = None, lastUpdated = Some 100\<rparr>;
        env = \<lparr>fetchSourcesFromUrl = (\<lambda>i u. Some \<lparr>normalSources = [2::nat], premiumSources_result = []\<rparr>),
               mergeSources = mergeSources_dedup, now = (\<lambda>i. 200)\<rparr>;
        store = \<lparr>content = \<lparr>passwordAccess = False, accessPasswords = [],
                   subscriptions = [a], sources = [1::nat], premiumSources = []\<rparr>,
                 saveCalls = []\<rparr>
    in subscriptions (content store) = [a]
     \<and> (\<forall>k < length (activeSubscriptions [a]). \<forall>s \<in> set [a].
           notEarlier (lastUpdated s) (Some (now env k)))
     \<and> lastUpdated (subscriptions (content (fst (sync env [a] store))) ! 0) = Some 200
     \<and> notEarlier (lastUpdated ([a] ! 0))
          (lastUpdated (subscriptions (content (fst (sync env [a] store))) ! 0)))"
proof -
  let ?a = "\<lparr>subId = ''a'', url = ''ua'', name = ''A'', autoRefresh = None, lastUpdated = Some 100\<rparr>"
  let ?env = "\<lparr>fetchSourcesFromUrl = (\<lambda>i u. Some \<lparr>normalSources = [2::nat], premiumSources_result = []\<rparr>),
               mergeSources = mergeSources_dedup, now = (\<lambda>i. 200)\<rparr>"
  let ?store = "\<lparr>content = \<lparr>passwordAccess = False, accessPasswords = [],
                   subscriptions = [?a], sources = [1::nat], premiumSources = []\<rparr>,
                 saveCalls = []\<rparr>"
  let ?new = "lastUpdated (subscriptions (content (fst (sync ?env [?a] ?store))) ! 0)"
  have m: "subscriptions (content ?store) = [?a]" by simp
  have c: "\<forall>k < length (activeSubscriptions [?a]). \<forall>s \<in> set [?a].
           notEarlier (lastUpdated s) (Some (now ?env k))"
    by (simp add: activeSubscriptions_def)
  have v: "?new = Some 200"
    by (simp add: sync_def batch_def activeSubscriptions_def syncOne_def getSettings_def
        saveSettings_def mergeSources_dedup_def Let_def)
  from lastUpdated_not_earlier [OF m c]
  have "?new = lastUpdated ([?a] ! 0)
      \<or> (\<exists>t. ?new = Some t \<and> notEarlier (lastUpdated ([?a] ! 0)) (Some t))"
    by simp
  then have "notEarlier (lastUpdated ([?a] ! 0)) ?new"
    by (auto simp add: v)
  with m c v show ?thesis unfolding Let_def by blast
qed

theorem sync_empty_results_no_write_witness:
  "(let a = \<lparr>subId = ''a'', url = ''ua'', name = ''A'', autoRefresh = None, lastUpdated = None\<rparr>;
        env = \<lparr>fetchSourcesFromUrl = (\<lambda>i u. Some \<lparr>normalSources = ([] :: nat list), premiumSources_result = []\<rparr>),
               mergeSources = mergeSources_dedup, now = (\<lambda>i. 7)\<rparr>;
        store = \<lparr>content = \<lparr>passwordAccess = False, accessPasswords = [],
                   subscriptions = [a], sources = [1::nat], premiumSources = []\<rparr>,
                 saveCalls = []\<rparr>
    in (\<forall>k < length (activeSubscriptions [a]). \<forall>r.
             fetchSourcesFromUrl env k (url (activeSubscriptions [a] ! k)) = Some r \<longrightarrow>
             normalSources r = [] \<and> premiumSources_result r = [])
     \<and> updatedSubscriptions (batch env [a] (getSettings store)) = [a\<lparr>lastUpdated := Some 7\<rparr>]
     \<and> fst (sync env [a] store) = store
     \<and> saveCalls (fst (sync env [a] store)) = []
     \<and> lastUpdated (subscriptions (content (fst (sync env [a] store))) ! 0) = None)"
proof -
  let ?a = "\<lparr>subId = ''a'', url = ''ua'', name = ''A'', autoRefresh = None, lastUpdated = None\<rparr>"
  let ?env = "\<lparr>fetchSourcesFromUrl = (\<lambda>i u. Some \<lparr>normalSources = ([] :: nat list), premiumSources_result = []\<rparr>),
               mergeSources = mergeSources_dedup, now = (\<lambda>i. 7)\<rparr>"
  let ?store = "\<lparr>content = \<lparr>passwordAccess = False, accessPasswords = [],
                   subscriptions = [?a], sources = [1::nat], premiumSources = []\<rparr>,
                 saveCalls = []\<rparr>"
  have h: "\<forall>k < length (activeSubscriptions [?a]). \<forall>r.
             fetchSourcesFromUrl ?env k (url (activeSubscriptions [?a] ! k)) = Some r \<longrightarrow>
             normalSources r = [] \<and> premiumSources_result r = []"
    by auto
  have l: "updatedSubscriptions (batch ?env [?a] (getSettings ?store)) = [?a\<lparr>lastUpdated := Some 7\<rparr>]"
    by (simp add: batch_def activeSubscriptions_def syncOne_def getSettings_def Let_def)
  from sync_empty_results_no_write [OF h, of ?store]
  have s: "fst (sync ?env [?a] ?store) = ?store" by blast
  then have t: "saveCalls (fst (sync ?env [?a] ?store)) = []"
    and u: "lastUpdated (subscriptions (content (fst (sync ?env [?a] ?store))) ! 0) = None"
    by simp_all
  from h l s t u show ?thesis unfolding Let_def by blast
qed

section \<open>Properties of the debounce\<close>

text \<open>A freshly mounted hook, before the effect has run, has no timer pending.\<close>

lemma tidy_initial:
  "tidy \<lparr>timers = \<lparr>clock = c, pending = [], nextId = n\<rparr>, cleanup = None, started = []\<rparr>"
  by (simp add: tidy_def)

lemma runCleanup_tidy: "tidy h \<Longrightarrow> pending (runCleanup h) = []"
proof (cases "cleanup h")
  case None
  assume "tidy h"
  with None have "\<forall>x \<in> set (pending (timers h)). False"
    by (auto simp add: tidy_def)
  then have "pending (timers h) = []" by (cases "pending (timers h)") auto
  with None show ?thesis by (simp add: runCleanup_def)
next
  case (Some i)
  assume "tidy h"
  with Some have "\<forall>x \<in> set (pending (timers h)). fst x = i"
    by (auto simp add: tidy_def)
  then have "filter (\<lambda>(j, due). j \<noteq> i) (pending (timers h)) = []"
    by (auto simp add: filter_empty_conv)
  with Some show ?thesis by (simp add: runCleanup_def clearTimeout_def)
qed

lemma runCleanup_clock: "clock (runCleanup h) = clock (timers h)"
  by (simp add: runCleanup_def clearTimeout_def split: option.splits)

lemma runCleanup_nextId: "nextId (runCleanup h) = nextId (timers h)"
  by (simp add: runCleanup_def clearTimeout_def split: option.splits)

lemma runCleanup_pending: "set (pending (runCleanup h)) \<subseteq> set (pending (timers h))"
  by (auto simp add: runCleanup_def clearTimeout_def split: option.splits)

lemma runCleanup_length: "length (pending (runCleanup h)) \<le> length (pending (timers h))"
  by (simp add: runCleanup_def clearTimeout_def split: option.splits)

lemma step_RunEffect:
  assumes "tidy h"
  shows "step RunEffect h =
     Some (h\<lparr>timers := \<lparr>clock = clock (timers h),
                         pending = [(nextId (timers h), clock (timers h) + 1000)],
                         nextId = Suc (nextId (timers h))\<rparr>,
             cleanup := Some (nextId (timers h))\<rparr>)"
proof -
  have "runCleanup h = \<lparr>clock = clock (timers h), pending = [], nextId = nextId (timers h)\<rparr>"
    using runCleanup_tidy [OF assms] runCleanup_clock [of h] runCleanup_nextId [of h]
    by (cases "runCleanup h") simp
  then show ?thesis by (simp add: setTimeout_def)
qed

lemma step_Fire:
  assumes "step (Fire i) h = Some h'"
  shows "\<exists>due. (i, due) \<in> set (pending (timers h)) \<and> due \<le> clock (timers h)
       \<and> h' = h\<lparr>timers := clearTimeout i (timers h), started := started h @ [clock (timers h)]\<rparr>"
proof (cases "map_of (pending (timers h)) i")
  case None
  with assms show ?thesis by simp
next
  case (Some due)
  then have "(i, due) \<in> set (pending (timers h))" by (rule map_of_SomeD)
  with assms Some show ?thesis by (auto split: if_splits)
qed

lemma clearTimeout_shrinks:
  "(i, due) \<in> set (pending t) \<Longrightarrow> length (pending (clearTimeout i t)) < length (pending t)"
  unfolding clearTimeout_def by (auto intro: length_filter_less)

lemma step_tidy: "tidy h \<Longrightarrow> step e h = Some h' \<Longrightarrow> tidy h'"
proof (cases e)
  case RunEffect
  assume "tidy h" "step e h = Some h'"
  with RunEffect step_RunEffect [of h] show ?thesis by (auto simp add: tidy_def)
next
  case Unmount
  assume "tidy h" "step e h = Some h'"
  with Unmount runCleanup_tidy [of h] show ?thesis by (auto simp add: tidy_def)
next
  case (Elapse d)
  assume "tidy h" "step e h = Some h'"
  with Elapse show ?thesis by (auto simp add: tidy_def)
next
  case (Fire i)
  assume t: "tidy h" and "step e h = Some h'"
  with Fire step_Fire [of i h h']
  have h': "h' = h\<lparr>timers := clearTimeout i (timers h), started := started h @ [clock (timers h)]\<rparr>"
    by blast
  have "length (pending (clearTimeout i (timers h))) \<le> length (pending (timers h))"
    unfolding clearTimeout_def by simp
  with t have a: "length (pending (clearTimeout i (timers h))) \<le> 1"
    unfolding tidy_def by linarith
  from t have b: "\<forall>(j, due) \<in> set (pending (clearTimeout i (timers h))). cleanup h = Some j"
    by (auto simp add: tidy_def clearTimeout_def)
  from a b show ?thesis by (simp add: h' tidy_def)
qed

lemma run_tidy: "tidy h \<Longrightarrow> run es h = Some h' \<Longrightarrow> tidy h'"
proof (induction es arbitrary: h)
  case Nil
  then show ?case by simp
next
  case (Cons e es)
  from Cons.prems(2) obtain h1 where s: "step e h = Some h1" and r: "run es h1 = Some h'"
    by (auto split: option.splits)
  from step_tidy [OF Cons.prems(1) s] r show ?case by (rule Cons.IH)
qed

lemma run_append:
  "run (es @ es') h = (case run es h of None \<Rightarrow> None | Some h1 \<Rightarrow> run es' h1)"
  by (induction es arbitrary: h) (auto split: option.splits)

lemma run_quiet:
  "RunEffect \<notin> set es \<Longrightarrow> run es h = Some h' \<Longrightarrow>
     length (started h') + length (pending (timers h'))
       \<le> length (started h) + length (pending (timers h))
   \<and> set (pending (timers h')) \<subseteq> set (pending (timers h))
   \<and> clock (timers h') = clock (timers h) + elapsed es"
proof (induction es arbitrary: h)
  case Nil
  then show ?case by simp
next
  case (Cons e es)
  from Cons.prems(2) obtain h1 where s: "step e h = Some h1" and r: "run es h1 = Some h'"
    by (auto split: option.splits)
  from Cons.prems(1) have ne: "e \<noteq> RunEffect" and q: "RunEffect \<notin> set es" by auto
  note ih = Cons.IH [OF q r]
  show ?case
  proof (cases e)
    case RunEffect
    with ne show ?thesis by simp
  next
    case Unmount
    with s have h1: "h1 = h\<lparr>timers := runCleanup h, cleanup := None\<rparr>" by simp
    from ih runCleanup_length [of h] runCleanup_pending [of h] runCleanup_clock [of h]
    show ?thesis by (auto simp add: h1 Unmount)
  next
    case (Elapse d)
    with s have h1: "h1 = h\<lparr>timers := (timers h)\<lparr>clock := clock (timers h) + d\<rparr>\<rparr>" by simp
    from ih show ?thesis by (auto simp add: h1 Elapse)
  next
    case (Fire i)
    with s step_Fire [of i h h1] obtain due where
      m: "(i, due) \<in> set (pending (timers h))" and
      h1: "h1 = h\<lparr>timers := clearTimeout i (timers h), started := started h @ [clock (timers h)]\<rparr>"
      by blast
    from clearTimeout_shrinks [OF m]
    have l: "length (pending (clearTimeout i (timers h))) < length (pending (timers h))" .
    have sub: "set (pending (clearTimeout i (timers h))) \<subseteq> set (pending (timers h))"
      by (auto simp add: clearTimeout_def)
    have c: "clock (clearTimeout i (timers h)) = clock (timers h)"
      by (simp add: clearTimeout_def)
    from ih l sub c show ?thesis by (auto simp add: h1 Fire)
  qed
qed

lemma run_burst:
  "tidy h \<Longrightarrow> 0 < w \<Longrightarrow> w \<le> 1000 \<Longrightarrow>
   \<forall>(i, due) \<in> set (pending (timers h)). clock (timers h) + w \<le> due \<Longrightarrow>
   withinWindow w es \<Longrightarrow> run es h = Some h' \<Longrightarrow>
   length (started h') \<le> length (started h) + 1"
proof (induction es arbitrary: h w)
  case Nil
  then show ?case by simp
next
  case (Cons e es)
  from Cons.prems(6) obtain h1 where s: "step e h = Some h1" and r: "run es h1 = Some h'"
    by (auto split: option.splits)
  note t1 = step_tidy [OF Cons.prems(1) s]
  show ?case
  proof (cases e)
    case RunEffect
    with s step_RunEffect [OF Cons.prems(1)]
    have h1: "h1 = h\<lparr>timers := \<lparr>clock = clock (timers h),
                         pending = [(nextId (timers h), clock (timers h) + 1000)],
                         nextId = Suc (nextId (timers h))\<rparr>,
             cleanup := Some (nextId (timers h))\<rparr>" by simp
    from Cons.prems(3)
    have d: "\<forall>(i, due) \<in> set (pending (timers h1)). clock (timers h1) + w \<le> due"
      by (simp add: h1)
    from Cons.prems(5) RunEffect have ww: "withinWindow w es" by simp
    from Cons.IH [OF t1 Cons.prems(2) Cons.prems(3) d ww r] show ?thesis by (simp add: h1)
  next
    case Unmount
    with s have h1: "h1 = h\<lparr>timers := runCleanup h, cleanup := None\<rparr>" by simp
    from runCleanup_tidy [OF Cons.prems(1)]
    have d: "\<forall>(i, due) \<in> set (pending (timers h1)). clock (timers h1) + w \<le> due"
      by (simp add: h1)
    from Cons.prems(5) Unmount have ww: "withinWindow w es" by simp
    from Cons.IH [OF t1 Cons.prems(2) Cons.prems(3) d ww r] show ?thesis by (simp add: h1)
  next
    case (Elapse d)
    with s have h1: "h1 = h\<lparr>timers := (timers h)\<lparr>clock := clock (timers h) + d\<rparr>\<rparr>" by simp
    show ?thesis
    proof (cases "d < w")
      case True
      with Cons.prems(5) Elapse have ww: "withinWindow (w - d) es" by simp
      from True have w0: "0 < w - d" by simp
      from Cons.prems(3) have w1: "w - d \<le> 1000" by simp
      from Cons.prems(4) True
      have dd: "\<forall>(i, due) \<in> set (pending (timers h1)). clock (timers h1) + (w - d) \<le> due"
        by (auto simp add: h1)
      from Cons.IH [OF t1 w0 w1 dd ww r] show ?thesis by (simp add: h1)
    next
      case False
      with Cons.prems(5) Elapse have q: "RunEffect \<notin> set es" by simp
      from run_quiet [OF q r]
      have "length (started h') \<le> length (started h1) + length (pending (timers h1))" by simp
      moreover from t1 have "length (pending (timers h1)) \<le> 1" by (simp add: tidy_def)
      ultimately show ?thesis by (simp add: h1)
    qed
  next
    case (Fire i)
    with s step_Fire [of i h h1] obtain due where
      m: "(i, due) \<in> set (pending (timers h))" and due: "due \<le> clock (timers h)"
      by blast
    from Cons.prems(4) m have "clock (timers h) + w \<le> due" by auto
    with due Cons.prems(2) show ?thesis by simp
  qed
qed

lemma sync_requests: "snd (sync env subs store) = map url (activeSubscriptions subs)"
proof (cases "length (activeSubscriptions subs) = 0")
  case True
  then show ?thesis by (simp add: sync_def)
next
  case False
  have "fetched (batch env subs (getSettings store)) = map url (activeSubscriptions subs)"
    by (simp add: batch_def syncLoop_fetched)
  with False show ?thesis by (simp add: sync_def Let_def)
qed

text \<open>
  C6. The effect sets a timer of 1000 ms whose callback is \<^verbatim>\<open>sync\<close>, and its cleanup
  clears that timer. For a hook instance whose only pending timer, if any, is the one its
  cleanup holds (every reachable instance is, see \<open>run_tidy\<close>):
  \<^item> after a run of the effect the only pending timer is the new one, due 1000 ms later;
    a timer that was pending before is cancelled and cannot fire any more;
  \<^item> when \<^verbatim>\<open>sync\<close> starts after a run of the effect, with no further run of the effect
    in between, at least 1000 ms have passed since that run;
  \<^item> over a burst of runs of the effect that all happen less than 1000 ms after the
    first, followed by anything but further runs, \<^verbatim>\<open>sync\<close> starts at most once;
  \<^item> one run of \<^verbatim>\<open>sync\<close> fetches each active subscription once, in order.
\<close>

theorem debounce_single_cycle:
  assumes "tidy h"
  shows "(step RunEffect h = Some h1 \<longrightarrow>
            pending (timers h1) = [(nextId (timers h), clock (timers h) + 1000)]
          \<and> (\<forall>j. j \<noteq> nextId (timers h) \<longrightarrow> step (Fire j) h1 = None))
       \<and> (RunEffect \<notin> set es \<longrightarrow> run (RunEffect # es @ [Fire i]) h = Some h2 \<longrightarrow>
            1000 \<le> elapsed es)
       \<and> (withinWindow 1000 es' \<longrightarrow> run (RunEffect # es') h = Some h3 \<longrightarrow>
            length (started h3) \<le> length (started h) + 1)
       \<and> snd (sync env subs store) = map url (activeSubscriptions subs)"
proof (intro conjI impI)
  let ?h = "h\<lparr>timers := \<lparr>clock = clock (timers h),
                         pending = [(nextId (timers h), clock (timers h) + 1000)],
                         nextId = Suc (nextId (timers h))\<rparr>,
             cleanup := Some (nextId (timers h))\<rparr>"
  note eff = step_RunEffect [OF assms]
  have t: "tidy ?h" using step_tidy [OF assms eff] .
  {
    assume "step RunEffect h = Some h1"
    with eff have h1: "h1 = ?h" by simp
    show "pending (timers h1) = [(nextId (timers h), clock (timers h) + 1000)]"
      by (simp add: h1)
    show "\<forall>j. j \<noteq> nextId (timers h) \<longrightarrow> step (Fire j) h1 = None"
      by (simp add: h1)
  }
  {
    assume q: "RunEffect \<notin> set es" and r: "run (RunEffect # es @ [Fire i]) h = Some h2"
    from r eff have "run (es @ [Fire i]) ?h = Some h2" by simp
    then obtain h' where r1: "run es ?h = Some h'" and f: "step (Fire i) h' = Some h2"
      by (auto simp add: run_append split: option.splits)
    from run_quiet [OF q r1]
    have sub: "set (pending (timers h')) \<subseteq> set (pending (timers ?h))"
      and c: "clock (timers h') = clock (timers ?h) + elapsed es" by simp_all
    from step_Fire [OF f] obtain due where
      m: "(i, due) \<in> set (pending (timers h'))" and d: "due \<le> clock (timers h')" by blast
    from m sub have "due = clock (timers h) + 1000" by auto
    with d c show "1000 \<le> elapsed es" by simp
  }
  {
    assume w: "withinWindow 1000 es'" and r: "run (RunEffect # es') h = Some h3"
    from r eff have r1: "run es' ?h = Some h3" by simp
    have d: "\<forall>(i, due) \<in> set (pending (timers ?h)). clock (timers ?h) + 1000 \<le> due"
      by simp
    from run_burst [OF t _ _ d w r1]
    show "length (started h3) \<le> length (started h) + 1" by simp
  }
  show "snd (sync env subs store) = map url (activeSubscriptions subs)"
    by (rule sync_requests)
qed

theorem debounce_single_cycle_witness:
  "(let h0 = \<lparr>timers = \<lparr>clock = 0, pending = [], nextId = 0\<rparr>, cleanup = None, started = []\<rparr>;
        burst = [Elapse 400, RunEffect, Elapse 300, RunEffect, Elapse 1000, Fire 2]
    in tidy h0
     \<and> step RunEffect h0
         = Some \<lparr>timers = \<lparr>clock = 0, pending = [(0, 1000)], nextId = 1\<rparr>,
                 cleanup = Some 0, started = []\<rparr>
     \<and> RunEffect \<notin> set [Elapse 1000]
     \<and> run (RunEffect # [Elapse 1000] @ [Fire 0]) h0
         = Some \<lparr>timers = \<lparr>clock = 1000, pending = [], nextId = 1\<rparr>,
                 cleanup = Some 0, started = [1000]\<rparr>
     \<and> 1000 \<le> elapsed [Elapse 1000]
     \<and> withinWindow 1000 burst
     \<and> run (RunEffect # burst) h0
         = Some \<lparr>timers = \<lparr>clock = 1700, pending = [], nextId = 3\<rparr>,
                 cleanup = Some 2, started = [1700]\<rparr>
     \<and> length (started \<lparr>timers = \<lparr>clock = 1700, pending = [], nextId = 3\<rparr>,
                 cleanup = Some 2, started = [1700]\<rparr>) \<le> length (started h0) + 1
     \<and> run [RunEffect, Elapse 400, RunEffect, Elapse 1000, Fire 0] h0 = None)"
proof -
  let ?h0 = "\<lparr>timers = \<lparr>clock = 0, pending = [], nextId = 0\<rparr>, cleanup = None, started = []\<rparr>"
  let ?burst = "[Elapse 400, RunEffect, Elapse 300, RunEffect, Elapse 1000, Fire 2]"
  let ?h1 = "\<lparr>timers = \<lparr>clock = 0, pending = [(0, 1000)], nextId = 1\<rparr>,
                 cleanup = Some 0, started = []\<rparr>"
  let ?h2 = "\<lparr>timers = \<lparr>clock = 1000, pending = [], nextId = 1\<rparr>,
                 cleanup = Some 0, started = [1000]\<rparr>"
  let ?h3 = "\<lparr>timers = \<lparr>clock = 1700, pending = [], nextId = 3\<rparr>,
                 cleanup = Some 2, started = [1700]\<rparr>"
  have t: "tidy ?h0" by (simp add: tidy_def)
  have s: "step RunEffect ?h0 = Some ?h1"
    by (simp add: setTimeout_def runCleanup_def)
  have q: "RunEffect \<notin> set [Elapse 1000]" by simp
  have r2: "run (RunEffect # [Elapse 1000] @ [Fire 0]) ?h0 = Some ?h2"
    by (simp add: setTimeout_def runCleanup_def clearTimeout_def)
  have w: "withinWindow 1000 ?burst" by simp
  have r3: "run (RunEffect # ?burst) ?h0 = Some ?h3"
    by (simp add: setTimeout_def runCleanup_def clearTimeout_def numeral_2_eq_2 numeral_3_eq_3)
  have n: "run [RunEffect, Elapse 400, RunEffect, Elapse 1000, Fire 0] ?h0 = None"
    by (simp add: setTimeout_def runCleanup_def clearTimeout_def)
  from debounce_single_cycle [OF t, of ?h1 "[Elapse 1000]" 0 ?h2 ?burst ?h3] s q r2 w r3
  have "1000 \<le> elapsed [Elapse 1000]"
    and "length (started ?h3) \<le> length (started ?h0) + 1"
    by blast+
  with t s q r2 w r3 n show ?thesis unfolding Let_def by blast
qed

end
